theory Spec2Isabelle
  imports Main "HOL-Library.Word"
begin

section \<open>Go values shared by both packages\<close>

text \<open>
  A Go panic ends the call that raises it; every function of the model that can panic
  returns \<open>panic + result\<close>, with \<open>Inl\<close> the panic. A Go \<open>error\<close> is modelled by its
  message, and the nil error by \<open>None\<close>.
\<close>

datatype panic =
    IndexOutOfRange
  | TypeAssertionFailed
  | NilDereference
  | MakechanSizeOutOfRange
  | SendOnClosedChannel
  | CloseOfClosedChannel
  | CloseOfNilChannel
  | NonPositiveTickerInterval

type_synonym error = "string option"

type_synonym byte = "8 word"

section \<open>Package querier: blocks carried by a context\<close>

text \<open>
  A context is a chain of nodes above the background context. Only value nodes answer
  \<open>Value\<close>; a cancellation node hands the question to its parent. A key is compared by
  its dynamic type and its value: \<open>contextKey n\<close> are the keys of the package's own
  unexported type, \<open>foreignKey\<close> those of every other type. A stored value is a slice of
  blocks (the nil slice is the empty list) or a value of another type; \<open>None\<close> is the
  nil interface. Contexts are non-nil, as the context package requires.
\<close>

datatype ctxkey = contextKey int | foreignKey nat

datatype 'b any = BlockSlice "'b list" | ForeignValue nat

datatype 'b Context =
    Background
  | WithCancel "'b Context"
  | WithValue "'b Context" ctxkey "'b any option"

definition blockCtxKey :: ctxkey where
  "blockCtxKey = contextKey 0"

fun Value :: "'b Context \<Rightarrow> ctxkey \<Rightarrow> 'b any option" where
  "Value Background k = None"
| "Value (WithCancel parent) k = Value parent k"
| "Value (WithValue parent key val) k = (if key = k then val else Value parent k)"

definition InjectBlocksIntoContext :: "'b Context \<Rightarrow> 'b list \<Rightarrow> 'b Context" where
  "InjectBlocksIntoContext ctx blocks = WithValue ctx blockCtxKey (Some (BlockSlice blocks))"

definition ExtractBlocksFromContext :: "'b Context \<Rightarrow> panic + ('b list \<times> bool)" where
  "ExtractBlocksFromContext ctx =
     (case Value ctx blockCtxKey of
        Some (BlockSlice blocks) \<Rightarrow> Inr (blocks, True)
      | Some (ForeignValue x) \<Rightarrow> Inl TypeAssertionFailed
      | None \<Rightarrow> Inr ([], False))"

text \<open>
  \<open>carriesBlockKey ctx\<close>: some node of the chain stores a value under \<open>blockCtxKey\<close>.
  The key's type is unexported, so \<open>InjectBlocksIntoContext\<close> is the only function that
  builds such a node.
\<close>

fun carriesBlockKey :: "'b Context \<Rightarrow> bool" where
  "carriesBlockKey Background = False"
| "carriesBlockKey (WithCancel parent) = carriesBlockKey parent"
| "carriesBlockKey (WithValue parent key val) = (key = blockCtxKey \<or> carriesBlockKey parent)"

section \<open>Package querier: the series set over a list of series\<close>

text \<open>
  The entries of the list are pointers to series: \<open>None\<close> is the nil pointer, \<open>Some x\<close>
  a pointer to the series \<open>x\<close>. \<open>At\<close> reads the entry at the index, which panics when
  the index is out of range, and then goes through the pointer for the labels and the
  chunks, which panics when the pointer is nil. \<open>PromLabels\<close> is a method of the series
  type, which another module declares: \<open>At\<close> takes it as a parameter. The index is a
  Go \<open>int\<close>; it stays between \<open>-1\<close> and the length of the list, so it is an \<open>int\<close> here.
\<close>

record ('l, 'c) Series =
  Labels :: 'l
  Chunks :: "'c list"

record ('l, 'c) storeSeriesSet =
  series :: "('l, 'c) Series option list"
  i :: int

definition newStoreSeriesSet :: "('l, 'c) Series option list \<Rightarrow> ('l, 'c) storeSeriesSet" where
  "newStoreSeriesSet s = \<lparr>series = s, i = - 1\<rparr>"

definition Next :: "('l, 'c) storeSeriesSet \<Rightarrow> bool \<times> ('l, 'c) storeSeriesSet" where
  "Next s =
     (if i s \<ge> int (length (series s)) - 1 then (False, s)
      else (True, s\<lparr>i := i s + 1\<rparr>))"

definition Err :: "('l, 'c) storeSeriesSet \<Rightarrow> error" where
  "Err s = None"

definition At ::
  "(('l, 'c) Series \<Rightarrow> 'p) \<Rightarrow> ('l, 'c) storeSeriesSet \<Rightarrow> panic + ('p \<times> 'c list)" where
  "At PromLabels s =
     (if 0 \<le> i s \<and> i s < int (length (series s))
      then (case series s ! nat (i s) of
              None \<Rightarrow> Inl NilDereference
            | Some x \<Rightarrow> Inr (PromLabels x, Chunks x))
      else Inl IndexOutOfRange)"

text \<open>\<open>Nexts n s\<close> calls \<open>Next\<close> \<open>n\<close> times in a row and collects what each call returned.\<close>

fun Nexts :: "nat \<Rightarrow> ('l, 'c) storeSeriesSet \<Rightarrow> bool list \<times> ('l, 'c) storeSeriesSet" where
  "Nexts 0 s = ([], s)"
| "Nexts (Suc n) s =
     (case Next s of (b, s') \<Rightarrow> (case Nexts n s' of (bs, s'') \<Rightarrow> (b # bs, s'')))"

section \<open>Package runtimeconfig: errors, bytes and the hash label\<close>

text \<open>
  \<open>errors.New\<close> and \<open>errors.Wrap\<close> of github.com/pkg/errors: wrapping the nil error
  gives nil, wrapping an error puts the message and a colon before its text.
\<close>

definition errors_New :: "string \<Rightarrow> error" where
  "errors_New message = Some message"

definition Wrap :: "error \<Rightarrow> string \<Rightarrow> error" where
  "Wrap err message = (case err of None \<Rightarrow> None | Some e \<Rightarrow> Some (message @ '': '' @ e))"

text \<open>
  \<open>fmt.Sprintf("%x", b)\<close> on a byte slice: two lowercase hexadecimal digits for each
  byte, the high half first, nothing between the bytes.
\<close>

definition hexdigit :: "nat \<Rightarrow> char" where
  "hexdigit n = ''0123456789abcdef'' ! n"

definition hexbyte :: "byte \<Rightarrow> string" where
  "hexbyte b = [hexdigit (unat b div 16), hexdigit (unat b mod 16)]"

definition Sprintf_x :: "byte list \<Rightarrow> string" where
  "Sprintf_x b = concat (map hexbyte b)"

section \<open>Package runtimeconfig: channels\<close>

text \<open>
  A value of type \<open>interface{}\<close> is \<open>None\<close> (nil) or \<open>Some\<close> value. A channel is a
  reference (a number) into the list of the channels the program has made; a number
  past the end of the list stands for the nil channel. A channel has its capacity, the
  elements waiting in its buffer (oldest first), its closed flag and the number of
  receivers parked on it. The manager sends with \<open>select\<close> and a \<open>default\<close> case only,
  so no sender is ever parked.
\<close>

type_synonym 'v iface = "'v option"

record 'a chan =
  capacity :: nat
  queue :: "'a list"
  closed :: bool
  receivers :: nat

text \<open>
  The history of the effects that leave the manager, oldest first: each call of the
  bucket, of the loader, of a gauge, each store into the configuration cell, each send
  that a channel took and each close of a channel appends one entry.
\<close>

datatype 'a event =
    BucketGet string
  | LoaderCall "byte list"
  | SuccessSet int
  | ConfigStore 'a
  | ChanSend nat 'a
  | ChanClose nat
  | HashReset
  | HashSet string int

section \<open>Package runtimeconfig: the manager\<close>

text \<open>
  A bucket client is a handle. What the object store answers changes with time, so
  every function that fetches takes the store as it stands at that call: for a bucket
  and an object name, either the error of \<open>Get\<close>, or a reader with the bytes and the
  error \<open>io.ReadAll\<close> returns from it and the error its \<open>Close\<close> returns. A function
  value (the loader, the bucket client factory) may be nil: \<open>None\<close>. The factory's
  result does not depend on the context in the model. The logger and the embedded
  service are left out: logging changes nothing the manager reads. A gauge holds 0 or 1
  only; its value is an \<open>int\<close>.
\<close>

type_synonym Bucket = nat

datatype get_result = GetError string | GetReader "byte list" error error

type_synonym objstore = "Bucket \<Rightarrow> string \<Rightarrow> get_result"

type_synonym BucketClientFactory = "(Bucket option \<times> error) option"

type_synonym 'v Loader = "(byte list \<Rightarrow> 'v iface \<times> error) option"

record bucket_Config =
  Backend :: string

record 'v Config =
  ReloadPeriod :: int
  LoadPath :: string
  Loader :: "'v Loader"
  StorageConfig :: bucket_Config

record 'v Manager =
  cfg :: "'v Config"
  listeners :: "nat list"
  config :: "'v iface"
  configLoadSuccess :: int
  configHash :: "string \<rightharpoonup> int"
  bucketClient :: "Bucket option"
  bucketClientFactory :: BucketClientFactory

text \<open>The manager together with the channels of the program and the history.\<close>

record 'v world = "'v Manager" +
  chans :: "'v iface chan list"
  trace :: "'v iface event list"

text \<open>
  \<open>New\<close>. The name of the filesystem backend is a constant of package bucket, taken as
  a parameter. Registering the two gauges is not modelled: both start at their zero
  value, the success gauge at 0 and the hash vector without a label.
\<close>

definition New ::
  "string \<Rightarrow> 'v Config \<Rightarrow> BucketClientFactory \<Rightarrow> 'v Manager option \<times> error" where
  "New Filesystem cfg0 factory =
     (if LoadPath cfg0 = [] then (None, errors_New ''LoadPath is empty'')
      else
        (let cfg1 =
           (if Backend (StorageConfig cfg0) = []
            then cfg0\<lparr>StorageConfig := (StorageConfig cfg0)\<lparr>Backend := Filesystem\<rparr>\<rparr>
            else cfg0)
         in (Some \<lparr>cfg = cfg1, listeners = [], config = None, configLoadSuccess = 0,
                   configHash = Map.empty, bucketClient = None,
                   bucketClientFactory = factory\<rparr>,
             None)))"

text \<open>The world a new manager starts in: no channel made yet, nothing in the history.\<close>

definition boot :: "'v Manager \<Rightarrow> 'v world" where
  "boot m =
     \<lparr>cfg = cfg m, listeners = listeners m, config = config m,
      configLoadSuccess = configLoadSuccess m, configHash = configHash m,
      bucketClient = bucketClient m, bucketClientFactory = bucketClientFactory m,
      chans = [], trace = []\<rparr>"

subsection \<open>Channel operations of the Go runtime\<close>

text \<open>
  \<open>make(chan T, n)\<close> panics on a negative size (a size too large for the memory is not
  modelled). \<open>close\<close> panics on the nil channel and on a closed one, and releases
  every parked receiver. A send in a \<open>select\<close> with a
  \<open>default\<close> case never parks: on a closed channel it panics, with a parked receiver it
  hands the value over, with room in the buffer it queues the value, and otherwise (the
  nil channel included) the \<open>default\<close> case runs.
\<close>

definition makechan :: "int \<Rightarrow> 'v world \<Rightarrow> panic + (nat \<times> 'v world)" where
  "makechan n w =
     (if n < 0 then Inl MakechanSizeOutOfRange
      else Inr (length (chans w),
                w\<lparr>chans := chans w
                   @ [\<lparr>capacity = nat n, queue = [], closed = False, receivers = 0\<rparr>]\<rparr>))"

definition closechan :: "nat \<Rightarrow> 'v world \<Rightarrow> panic + 'v world" where
  "closechan c w =
     (if length (chans w) \<le> c then Inl CloseOfNilChannel
      else if closed (chans w ! c) then Inl CloseOfClosedChannel
      else Inr (w\<lparr>chans := (chans w)[c := (chans w ! c)\<lparr>closed := True, receivers := 0\<rparr>],
                  trace := trace w @ [ChanClose c]\<rparr>))"

definition selectnbsend :: "nat \<Rightarrow> 'v iface \<Rightarrow> 'v world \<Rightarrow> panic + (bool \<times> 'v world)" where
  "selectnbsend c v w =
     (if length (chans w) \<le> c then Inr (False, w)
      else if closed (chans w ! c) then Inl SendOnClosedChannel
      else if 0 < receivers (chans w ! c)
      then Inr (True,
                w\<lparr>chans := (chans w)[c := (chans w ! c)\<lparr>receivers := receivers (chans w ! c) - 1\<rparr>],
                  trace := trace w @ [ChanSend c v]\<rparr>)
      else if length (queue (chans w ! c)) < capacity (chans w ! c)
      then Inr (True,
                w\<lparr>chans := (chans w)[c := (chans w ! c)\<lparr>queue := queue (chans w ! c) @ [v]\<rparr>],
                  trace := trace w @ [ChanSend c v]\<rparr>)
      else Inr (False, w))"

text \<open>
  What the consumers do with a channel they hold: \<open>chanrecv\<close> is a receive (it takes
  the oldest queued element; on an empty open channel the receiver parks; on an empty
  closed channel it returns at once), \<open>abandon\<close> is a parked receiver giving up (a
  \<open>select\<close> of the consumer that took another case).
\<close>

definition chanrecv :: "nat \<Rightarrow> 'v world \<Rightarrow> 'v world" where
  "chanrecv c w =
     (if length (chans w) \<le> c then w
      else if queue (chans w ! c) \<noteq> []
      then w\<lparr>chans := (chans w)[c := (chans w ! c)\<lparr>queue := tl (queue (chans w ! c))\<rparr>]\<rparr>
      else if closed (chans w ! c) then w
      else w\<lparr>chans := (chans w)[c := (chans w ! c)\<lparr>receivers := receivers (chans w ! c) + 1\<rparr>]\<rparr>)"

definition abandon :: "nat \<Rightarrow> 'v world \<Rightarrow> 'v world" where
  "abandon c w =
     (if length (chans w) \<le> c then w
      else w\<lparr>chans := (chans w)[c := (chans w ! c)\<lparr>receivers := receivers (chans w ! c) - 1\<rparr>]\<rparr>)"

subsection \<open>The listener registry\<close>

definition CreateListenerChannel :: "int \<Rightarrow> 'v world \<Rightarrow> panic + (nat \<times> 'v world)" where
  "CreateListenerChannel buffer w =
     (case makechan buffer w of
        Inl p \<Rightarrow> Inl p
      | Inr (ch, w') \<Rightarrow> Inr (ch, w'\<lparr>listeners := listeners w' @ [ch]\<rparr>))"

text \<open>
  The loop of \<open>CloseListenerChannel\<close> over the listeners: \<open>ix\<close> is the index of the head
  of the list still to visit. The first entry equal to the argument is cut out of the
  slice and closed, and the loop ends there.
\<close>

fun CloseListenerChannel_range :: "nat \<Rightarrow> nat list \<Rightarrow> nat \<Rightarrow> 'v world \<Rightarrow> panic + 'v world" where
  "CloseListenerChannel_range ix [] listener w = Inr w"
| "CloseListenerChannel_range ix (ch # rest) listener w =
     (if ch = listener
      then closechan ch (w\<lparr>listeners := take ix (listeners w) @ drop (ix + 1) (listeners w)\<rparr>)
      else CloseListenerChannel_range (ix + 1) rest listener w)"

definition CloseListenerChannel :: "nat \<Rightarrow> 'v world \<Rightarrow> panic + 'v world" where
  "CloseListenerChannel listener w = CloseListenerChannel_range 0 (listeners w) listener w"

fun callListeners_range :: "nat list \<Rightarrow> 'v iface \<Rightarrow> 'v world \<Rightarrow> panic + 'v world" where
  "callListeners_range [] newValue w = Inr w"
| "callListeners_range (ch # rest) newValue w =
     (case selectnbsend ch newValue w of
        Inl p \<Rightarrow> Inl p
      | Inr (taken, w') \<Rightarrow> callListeners_range rest newValue w')"

definition callListeners :: "'v iface \<Rightarrow> 'v world \<Rightarrow> panic + 'v world" where
  "callListeners newValue w = callListeners_range (listeners w) newValue w"

fun stopping_range :: "nat list \<Rightarrow> 'v world \<Rightarrow> panic + 'v world" where
  "stopping_range [] w = Inr w"
| "stopping_range (ch # rest) w =
     (case closechan ch w of
        Inl p \<Rightarrow> Inl p
      | Inr w' \<Rightarrow> stopping_range rest w')"

definition stopping :: "'v world \<Rightarrow> panic + (error \<times> 'v world)" where
  "stopping w =
     (case stopping_range (listeners w) w of
        Inl p \<Rightarrow> Inl p
      | Inr w' \<Rightarrow> Inr (None, w'\<lparr>listeners := []\<rparr>))"

subsection \<open>The configuration cell and the gauges\<close>

definition setConfig :: "'v iface \<Rightarrow> 'v world \<Rightarrow> 'v world" where
  "setConfig v w = w\<lparr>config := v, trace := trace w @ [ConfigStore v]\<rparr>"

definition GetConfig :: "'v world \<Rightarrow> 'v iface" where
  "GetConfig w = config w"

definition configLoadSuccess_Set :: "int \<Rightarrow> 'v world \<Rightarrow> 'v world" where
  "configLoadSuccess_Set x w = w\<lparr>configLoadSuccess := x, trace := trace w @ [SuccessSet x]\<rparr>"

definition configHash_Reset :: "'v world \<Rightarrow> 'v world" where
  "configHash_Reset w = w\<lparr>configHash := Map.empty, trace := trace w @ [HashReset]\<rparr>"

definition configHash_Set :: "string \<Rightarrow> int \<Rightarrow> 'v world \<Rightarrow> 'v world" where
  "configHash_Set label x w =
     w\<lparr>configHash := (configHash w)(label \<mapsto> x), trace := trace w @ [HashSet label x]\<rparr>"

subsection \<open>Loading\<close>

definition loadConfigFromBucket ::
  "objstore \<Rightarrow> 'v world \<Rightarrow> panic + ((byte list \<times> error) \<times> 'v world)" where
  "loadConfigFromBucket store w =
     (case bucketClient w of
        None \<Rightarrow> Inl NilDereference
      | Some b \<Rightarrow>
          (let w1 = w\<lparr>trace := trace w @ [BucketGet (LoadPath (cfg w))]\<rparr> in
           case store b (LoadPath (cfg w)) of
             GetError e \<Rightarrow> Inr (([], Wrap (Some e) ''open file''), w1)
           | GetReader bytes rerr cerr \<Rightarrow>
               (case rerr of
                  Some e \<Rightarrow> Inr (([], Wrap (Some e) ''read entire file''), w1)
                | None \<Rightarrow> Inr ((bytes, cerr), w1))))"

text \<open>
  \<open>loadConfig\<close>. \<open>Sum256\<close> is \<open>sha256.Sum256\<close> of the standard library, a parameter of
  the model.
\<close>

definition loadConfig ::
  "(byte list \<Rightarrow> byte list) \<Rightarrow> objstore \<Rightarrow> 'v world \<Rightarrow> panic + (error \<times> 'v world)" where
  "loadConfig Sum256 store w =
     (case loadConfigFromBucket store w of
        Inl p \<Rightarrow> Inl p
      | Inr ((buf, err), w1) \<Rightarrow>
          (case err of
             Some e \<Rightarrow> Inr (Wrap (Some e) ''read file'', configLoadSuccess_Set 0 w1)
           | None \<Rightarrow>
               (let hash = Sum256 buf in
                case Loader (cfg w1) of
                  None \<Rightarrow> Inl NilDereference
                | Some loader \<Rightarrow>
                    (let w2 = w1\<lparr>trace := trace w1 @ [LoaderCall buf]\<rparr> in
                     case loader buf of
                       (v, Some e) \<Rightarrow>
                         Inr (Wrap (Some e) ''load file'', configLoadSuccess_Set 0 w2)
                     | (v, None) \<Rightarrow>
                         (case callListeners v (setConfig v (configLoadSuccess_Set 1 w2)) of
                            Inl p \<Rightarrow> Inl p
                          | Inr w3 \<Rightarrow>
                              Inr (None,
                                   configHash_Set (Sprintf_x hash) 1 (configHash_Reset w3)))))))"

subsection \<open>The three phases of the service\<close>

definition starting ::
  "(byte list \<Rightarrow> byte list) \<Rightarrow> objstore \<Rightarrow> 'v world \<Rightarrow> panic + (error \<times> 'v world)" where
  "starting Sum256 store w =
     (if LoadPath (cfg w) = [] then Inr (None, w)
      else
        (case bucketClientFactory w of
           None \<Rightarrow> Inl NilDereference
         | Some (b, err) \<Rightarrow>
             (let w1 = w\<lparr>bucketClient := b\<rparr> in
              case err of
                Some e \<Rightarrow> Inr (Some e, w1)
              | None \<Rightarrow>
                  (case loadConfig Sum256 store w1 of
                     Inl p \<Rightarrow> Inl p
                   | Inr (e, w2) \<Rightarrow> Inr (Wrap e ''failed to load runtime config'', w2)))))"

text \<open>
  The loop waits on the ticker and on the context. What it wakes up to, in the order
  the \<open>select\<close> takes it: a tick (with the object store as it stands then) or the
  cancellation of the context. The result of the loop is \<open>Some err\<close> when it returned
  \<open>err\<close>, and \<open>None\<close> while it still waits after the last wake-up of the list.
  Without a load path there is no ticker and only the cancellation is waited for.
  \<open>time.NewTicker\<close> panics on a period that is not positive.
\<close>

datatype wakeup = TickerC objstore | CtxDone

fun awaitDone :: "wakeup list \<Rightarrow> error option" where
  "awaitDone [] = None"
| "awaitDone (CtxDone # rest) = Some None"
| "awaitDone (TickerC store # rest) = awaitDone rest"

fun loop_for ::
  "(byte list \<Rightarrow> byte list) \<Rightarrow> wakeup list \<Rightarrow> 'v world \<Rightarrow> panic + (error option \<times> 'v world)" where
  "loop_for Sum256 [] w = Inr (None, w)"
| "loop_for Sum256 (TickerC store # rest) w =
     (case loadConfig Sum256 store w of
        Inl p \<Rightarrow> Inl p
      | Inr (err, w') \<Rightarrow> loop_for Sum256 rest w')"
| "loop_for Sum256 (CtxDone # rest) w = Inr (Some None, w)"

definition loop ::
  "(byte list \<Rightarrow> byte list) \<Rightarrow> wakeup list \<Rightarrow> 'v world \<Rightarrow> panic + (error option \<times> 'v world)" where
  "loop Sum256 wakeups w =
     (if LoadPath (cfg w) = [] then Inr (awaitDone wakeups, w)
      else if ReloadPeriod (cfg w) \<le> 0 then Inl NonPositiveTickerInterval
      else loop_for Sum256 wakeups w)"

section \<open>Package runtimeconfig: notions the properties are stated with\<close>

text \<open>
  A channel can take a value without parking the sender when a receiver is parked on
  it or its buffer has room; \<open>deliver\<close> is the channel after it took the value. \<open>sent c\<close>
  of a history lists the values channel \<open>c\<close> took, oldest first. \<open>fanout\<close> and
  \<open>closeAll\<close> describe the channels of the program after every channel of a list has
  been offered a value, or has been closed.
\<close>

definition canSend :: "'a chan \<Rightarrow> bool" where
  "canSend ch \<longleftrightarrow> 0 < receivers ch \<or> length (queue ch) < capacity ch"

definition deliver :: "'a \<Rightarrow> 'a chan \<Rightarrow> 'a chan" where
  "deliver v ch =
     (if 0 < receivers ch then ch\<lparr>receivers := receivers ch - 1\<rparr>
      else ch\<lparr>queue := queue ch @ [v]\<rparr>)"

fun sent :: "nat \<Rightarrow> 'a event list \<Rightarrow> 'a list" where
  "sent c [] = []"
| "sent c (ChanSend d v # es) = (if d = c then v # sent c es else sent c es)"
| "sent c (e # es) = sent c es"

definition fanout :: "'a \<Rightarrow> nat list \<Rightarrow> 'a chan list \<Rightarrow> 'a chan list" where
  "fanout v xs chs =
     map (\<lambda>k. if k \<in> set xs \<and> canSend (chs ! k) then deliver v (chs ! k) else chs ! k)
       [0..<length chs]"

definition closeAll :: "nat list \<Rightarrow> 'a chan list \<Rightarrow> 'a chan list" where
  "closeAll xs chs =
     map (\<lambda>k. if k \<in> set xs then (chs ! k)\<lparr>closed := True, receivers := 0\<rparr> else chs ! k)
       [0..<length chs]"

text \<open>
  The state of the listener registry that every run of the manager keeps: no channel is
  registered twice, every registered channel has been made, a channel is open exactly
  when it is registered, and the history holds one close for each closed channel and
  none for any other.
\<close>

definition registry_ok :: "'v world \<Rightarrow> bool" where
  "registry_ok w \<longleftrightarrow>
     distinct (listeners w)
     \<and> (\<forall>c\<in>set (listeners w). c < length (chans w))
     \<and> (\<forall>c<length (chans w). closed (chans w ! c) = (c \<notin> set (listeners w)))
     \<and> (\<forall>c. count_list (trace w) (ChanClose c)
              = (if c < length (chans w) \<and> closed (chans w ! c) then 1 else 0))"

text \<open>
  \<open>stored\<close> of a history lists the values stored into the configuration cell, oldest
  first; \<open>lastStored\<close> is the last of them, or nil when there is none.
\<close>

fun stored :: "'a event list \<Rightarrow> 'a list" where
  "stored [] = []"
| "stored (ConfigStore v # es) = v # stored es"
| "stored (e # es) = stored es"

definition lastStored :: "'v iface event list \<Rightarrow> 'v iface" where
  "lastStored tr = (if stored tr = [] then None else last (stored tr))"

definition cell_ok :: "'v world \<Rightarrow> bool" where
  "cell_ok w \<longleftrightarrow> config w = lastStored (trace w)"

text \<open>
  Two relations between a world and a later one. \<open>keeps_registry\<close>: the same listeners,
  the same channels closed, no further close in the history and no further send on a
  channel that was closed. \<open>closed_stay\<close>: no channel was lost, and every channel that
  was closed is still closed and took no further value.
\<close>

definition keeps_registry :: "'v world \<Rightarrow> 'v world \<Rightarrow> bool" where
  "keeps_registry w w' \<longleftrightarrow>
     listeners w' = listeners w
     \<and> map closed (chans w') = map closed (chans w)
     \<and> (\<forall>c. count_list (trace w') (ChanClose c) = count_list (trace w) (ChanClose c))
     \<and> (\<forall>c<length (chans w). closed (chans w ! c) \<longrightarrow> sent c (trace w') = sent c (trace w))"

definition closed_stay :: "'v world \<Rightarrow> 'v world \<Rightarrow> bool" where
  "closed_stay w w' \<longleftrightarrow>
     length (chans w) \<le> length (chans w')
     \<and> (\<forall>c<length (chans w). closed (chans w ! c) \<longrightarrow>
           closed (chans w' ! c) \<and> sent c (trace w') = sent c (trace w))"

text \<open>
  What can happen to a manager, in any order and any number of times: the service
  starts it, the loop reloads once, a caller creates or closes a listener channel, the
  service stops it, a consumer receives from a channel or gives up waiting on one.
  \<open>run\<close> performs a list of such actions and stops at the first panic. Each action
  is performed as a whole: the model is sequential and the two mutexes of the manager
  are not part of it.
\<close>

datatype action =
    Starting objstore
  | Reload objstore
  | Subscribe int
  | Unsubscribe nat
  | Stopping
  | Receive nat
  | Abandon nat

fun step :: "(byte list \<Rightarrow> byte list) \<Rightarrow> action \<Rightarrow> 'v world \<Rightarrow> panic + 'v world" where
  "step Sum256 (Starting store) w =
     (case starting Sum256 store w of Inl p \<Rightarrow> Inl p | Inr (e, w') \<Rightarrow> Inr w')"
| "step Sum256 (Reload store) w =
     (case loadConfig Sum256 store w of Inl p \<Rightarrow> Inl p | Inr (e, w') \<Rightarrow> Inr w')"
| "step Sum256 (Subscribe buffer) w =
     (case CreateListenerChannel buffer w of Inl p \<Rightarrow> Inl p | Inr (ch, w') \<Rightarrow> Inr w')"
| "step Sum256 (Unsubscribe listener) w = CloseListenerChannel listener w"
| "step Sum256 Stopping w =
     (case stopping w of Inl p \<Rightarrow> Inl p | Inr (e, w') \<Rightarrow> Inr w')"
| "step Sum256 (Receive c) w = Inr (chanrecv c w)"
| "step Sum256 (Abandon c) w = Inr (abandon c w)"

fun run :: "(byte list \<Rightarrow> byte list) \<Rightarrow> action list \<Rightarrow> 'v world \<Rightarrow> panic + 'v world" where
  "run Sum256 [] w = Inr w"
| "run Sum256 (a # rest) w =
     (case step Sum256 a w of Inl p \<Rightarrow> Inl p | Inr w' \<Rightarrow> run Sum256 rest w')"

section \<open>Package runtimeconfig: a concrete manager for the examples\<close>

text \<open>
  A manager with a loader that rejects the empty file and returns the bytes of any
  other file as the configuration, three object stores (one that serves the file, one
  that cannot be reached, one that serves the empty file), and the world after two
  callers subscribed with buffers of one and of zero elements.
\<close>

definition loaderA :: "byte list \<Rightarrow> byte list iface \<times> error" where
  "loaderA b = (if b = [] then (None, Some ''empty file'') else (Some b, None))"

definition cfgA :: "byte list Config" where
  "cfgA = \<lparr>ReloadPeriod = 10000000000, LoadPath = ''cfg.yaml'', Loader = Some loaderA,
           StorageConfig = \<lparr>Backend = ''''\<rparr>\<rparr>"

definition facA :: BucketClientFactory where
  "facA = Some (Some 0, None)"

definition mgrA :: "byte list Manager" where
  "mgrA = \<lparr>cfg = cfgA\<lparr>StorageConfig := \<lparr>Backend = ''filesystem''\<rparr>\<rparr>, listeners = [],
           config = None, configLoadSuccess = 0, configHash = Map.empty, bucketClient = None,
           bucketClientFactory = facA\<rparr>"

definition storeA :: objstore where
  "storeA b name = (if name = ''cfg.yaml'' then GetReader [1, 255] None None else GetError ''not found'')"

definition storeF :: objstore where
  "storeF b name = GetError ''unreachable''"

definition storeE :: objstore where
  "storeE b name = GetReader [] None None"

definition worldA :: "byte list world" where
  "worldA = (boot mgrA)
     \<lparr>listeners := [0, 1],
      chans := [\<lparr>capacity = 1, queue = [], closed = False, receivers = 0\<rparr>,
                \<lparr>capacity = 0, queue = [], closed = False, receivers = 0\<rparr>]\<rparr>"

text \<open>
  The world after the manager started from the store that serves the file and three
  callers subscribed, the first with a buffer of one element and the others with none,
  and a consumer parked on the third channel.
\<close>

definition worldC :: "byte list world" where
  "worldC = (boot mgrA)
     \<lparr>listeners := [0, 1, 2], config := Some [1, 255], configLoadSuccess := 1,
      configHash := [''01ff'' \<mapsto> 1], bucketClient := Some 0,
      chans := [\<lparr>capacity = 1, queue = [], closed = False, receivers = 0\<rparr>,
                \<lparr>capacity = 0, queue = [], closed = False, receivers = 0\<rparr>,
                \<lparr>capacity = 0, queue = [], closed = False, receivers = 1\<rparr>],
      trace := [BucketGet ''cfg.yaml'', LoaderCall [1, 255], SuccessSet 1,
                ConfigStore (Some [1, 255]), HashReset, HashSet ''01ff'' 1]\<rparr>"

text \<open>
  The world after that manager stopped, and the world after it then reloaded once more,
  a caller closed the first channel again and another caller subscribed.
\<close>

definition worldD :: "byte list world" where
  "worldD = worldC
     \<lparr>listeners := [],
      chans := [\<lparr>capacity = 1, queue = [], closed = True, receivers = 0\<rparr>,
                \<lparr>capacity = 0, queue = [], closed = True, receivers = 0\<rparr>,
                \<lparr>capacity = 0, queue = [], closed = True, receivers = 0\<rparr>],
      trace := trace worldC @ [ChanClose 0, ChanClose 1, ChanClose 2]\<rparr>"

definition worldE :: "byte list world" where
  "worldE = worldD
     \<lparr>listeners := [3],
      chans := chans worldD @ [\<lparr>capacity = 4, queue = [], closed = False, receivers = 0\<rparr>],
      trace := trace worldD
        @ [BucketGet ''cfg.yaml'', LoaderCall [1, 255], SuccessSet 1,
           ConfigStore (Some [1, 255]), HashReset, HashSet ''01ff'' 1]\<rparr>"

text \<open>
  The world after the manager started from the store that serves the file and one
  caller subscribed with a buffer of two elements, and the world one successful reload
  later.
\<close>

definition worldG :: "byte list world" where
  "worldG = (boot mgrA)
     \<lparr>listeners := [0], config := Some [1, 255], configLoadSuccess := 1,
      configHash := [''01ff'' \<mapsto> 1], bucketClient := Some 0,
      chans := [\<lparr>capacity = 2, queue = [], closed = False, receivers = 0\<rparr>],
      trace := [BucketGet ''cfg.yaml'', LoaderCall [1, 255], SuccessSet 1,
                ConfigStore (Some [1, 255]), HashReset, HashSet ''01ff'' 1]\<rparr>"

definition worldH :: "byte list world" where
  "worldH = worldG
     \<lparr>chans := [\<lparr>capacity = 2, queue = [Some [1, 255]], closed = False, receivers = 0\<rparr>],
      trace := trace worldG
        @ [BucketGet ''cfg.yaml'', LoaderCall [1, 255], SuccessSet 1,
           ConfigStore (Some [1, 255]), ChanSend 0 (Some [1, 255]),
           HashReset, HashSet ''01ff'' 1]\<rparr>"

text \<open>
  A store that serves another file body, and a configuration without a load path
  together with a manager value that holds it (\<open>New\<close> returns no such manager).
\<close>

definition storeB :: objstore where
  "storeB b name = GetReader [171] None None"

definition cfgE :: "byte list Config" where
  "cfgE = cfgA\<lparr>LoadPath := ''''\<rparr>"

definition worldZ :: "byte list world" where
  "worldZ = boot (mgrA\<lparr>cfg := cfgE\<rparr>)"

section \<open>Package querier: properties\<close>

lemma Value_no_block_key: "\<not> carriesBlockKey ctx \<Longrightarrow> Value ctx blockCtxKey = None"
  by (induction ctx) auto

lemma Nexts_from:
  "i s = int j - 1 \<Longrightarrow> j \<le> length (series s) \<Longrightarrow>
   Nexts n s =
     (replicate (min n (length (series s) - j)) True @ replicate (n - (length (series s) - j)) False,
      s\<lparr>i := int (min (j + n) (length (series s))) - 1\<rparr>)"
proof (induction n arbitrary: s j)
  case 0
  then show ?case by simp
next
  case (Suc n)
  show ?case
  proof (cases "j < length (series s)")
    case True
    let ?s = "s\<lparr>i := i s + 1\<rparr>"
    have nx: "Next s = (True, ?s)"
      using True Suc.prems by (simp add: Next_def)
    have "i ?s = int (Suc j) - 1" and "Suc j \<le> length (series ?s)"
      using True Suc.prems by simp_all
    from Suc.IH [OF this] have
      "Nexts n ?s =
         (replicate (min n (length (series s) - Suc j)) True
            @ replicate (n - (length (series s) - Suc j)) False,
          s\<lparr>i := int (min (Suc j + n) (length (series s))) - 1\<rparr>)"
      by simp
    moreover have "min (Suc n) (length (series s) - j) = Suc (min n (length (series s) - Suc j))"
      using True by arith
    moreover have "Suc n - (length (series s) - j) = n - (length (series s) - Suc j)"
      using True by arith
    ultimately show ?thesis
      using nx by simp
  next
    case False
    with Suc.prems have eq: "j = length (series s)" by simp
    have nx: "Next s = (False, s)"
      using eq Suc.prems by (simp add: Next_def)
    from Suc.IH [OF Suc.prems] have
      "Nexts n s = (replicate n False, s\<lparr>i := int (length (series s)) - 1\<rparr>)"
      using eq by simp
    then show ?thesis
      using nx eq by (simp add: replicate_append_same)
  qed
qed

lemma Nexts_new:
  "Nexts n (newStoreSeriesSet s) =
     (replicate (min n (length s)) True @ replicate (n - length s) False,
      \<lparr>series = s, i = int (min n (length s)) - 1\<rparr>)"
  using Nexts_from [of "newStoreSeriesSet s" 0 n] by (simp add: newStoreSeriesSet_def)

text \<open>
  Claim C9. Extracting the blocks from a context into which \<open>InjectBlocksIntoContext\<close>
  has just put the list \<open>bs\<close> returns \<open>bs\<close> and \<open>true\<close>, for every context and every list
  (the empty one too); on a context no node of which stores anything under the block
  key, it returns the nil slice and \<open>false\<close>.
\<close>

theorem ExtractBlocksFromContext_InjectBlocksIntoContext:
  "ExtractBlocksFromContext (InjectBlocksIntoContext ctx bs) = Inr (bs, True)
   \<and> (\<not> carriesBlockKey ctx \<longrightarrow> ExtractBlocksFromContext ctx = Inr ([], False))"
  by (simp add: ExtractBlocksFromContext_def InjectBlocksIntoContext_def Value_no_block_key)

theorem ExtractBlocksFromContext_InjectBlocksIntoContext_witness:
  "ExtractBlocksFromContext
     (InjectBlocksIntoContext
        (WithValue (WithCancel Background) (foreignKey 1) (Some (ForeignValue 3)))
        [4, 5 :: nat]) = Inr ([4, 5], True)
   \<and> \<not> carriesBlockKey
        (WithValue (WithCancel Background) (foreignKey 1) (Some (ForeignValue 3)) :: nat Context)
   \<and> ExtractBlocksFromContext
        (WithValue (WithCancel Background) (foreignKey 1) (Some (ForeignValue 3)) :: nat Context)
       = Inr ([], False)"
proof -
  let ?c = "WithValue (WithCancel Background) (foreignKey 1) (Some (ForeignValue 3)) :: nat Context"
  have free: "\<not> carriesBlockKey ?c"
    by (simp add: blockCtxKey_def)
  from ExtractBlocksFromContext_InjectBlocksIntoContext [of ?c "[4, 5]"] free
  show ?thesis by blast
qed

text \<open>
  Claim C10, as the code has it. On the iterator \<open>newStoreSeriesSet s\<close>, the first
  \<open>length s\<close> calls of \<open>Next\<close> return \<open>true\<close> and every later call returns \<open>false\<close>;
  after \<open>n\<close> calls the index is \<open>min n (length s) - 1\<close>, so after the \<open>k\<close>-th call that
  returned \<open>true\<close> it is \<open>k - 1\<close>, within the list, and \<open>At\<close> never panics on the index:
  it returns the labels and the chunks of \<open>s[k - 1]\<close> when that entry is not nil, and
  panics on the nil pointer when it is. \<open>Err\<close> is always nil; \<open>At\<close> before any call of
  \<open>Next\<close> reads index \<open>-1\<close> and panics.
\<close>

theorem storeSeriesSet_iteration:
  "fst (Nexts n (newStoreSeriesSet s))
     = replicate (min n (length s)) True @ replicate (n - length s) False
   \<and> i (snd (Nexts n (newStoreSeriesSet s))) = int (min n (length s)) - 1
   \<and> (1 \<le> k \<and> k \<le> length s \<longrightarrow>
        i (snd (Nexts k (newStoreSeriesSet s))) = int k - 1
        \<and> 0 \<le> i (snd (Nexts k (newStoreSeriesSet s)))
        \<and> i (snd (Nexts k (newStoreSeriesSet s))) < int (length s)
        \<and> At PromLabels (snd (Nexts k (newStoreSeriesSet s)))
            = (case s ! (k - 1) of
                 None \<Rightarrow> Inl NilDereference
               | Some x \<Rightarrow> Inr (PromLabels x, Chunks x))
        \<and> At PromLabels (snd (Nexts k (newStoreSeriesSet s))) \<noteq> Inl IndexOutOfRange)
   \<and> Err (snd (Nexts n (newStoreSeriesSet s))) = None
   \<and> i (newStoreSeriesSet s) = - 1
   \<and> At PromLabels (newStoreSeriesSet s) = Inl IndexOutOfRange"
proof -
  have at: "At PromLabels (snd (Nexts k (newStoreSeriesSet s)))
              = (case s ! (k - 1) of
                   None \<Rightarrow> Inl NilDereference
                 | Some x \<Rightarrow> Inr (PromLabels x, Chunks x))"
    if "1 \<le> k" and "k \<le> length s"
  proof -
    from that have "nat (int k - 1) = k - 1" by simp
    with that show ?thesis
      by (simp add: Nexts_new At_def)
  qed
  have inrange: "At PromLabels (snd (Nexts k (newStoreSeriesSet s))) \<noteq> Inl IndexOutOfRange"
    if "1 \<le> k" and "k \<le> length s"
    unfolding at [OF that] by (simp split: option.splits)
  have ix: "i (snd (Nexts k (newStoreSeriesSet s))) = int k - 1"
    "0 \<le> i (snd (Nexts k (newStoreSeriesSet s)))"
    "i (snd (Nexts k (newStoreSeriesSet s))) < int (length s)"
    if "1 \<le> k" and "k \<le> length s"
    using that by (simp_all add: Nexts_new)
  have res: "fst (Nexts n (newStoreSeriesSet s))
               = replicate (min n (length s)) True @ replicate (n - length s) False"
    and ixn: "i (snd (Nexts n (newStoreSeriesSet s))) = int (min n (length s)) - 1"
    by (simp_all add: Nexts_new)
  have fresh: "i (newStoreSeriesSet s) = - 1"
    and fresh_at: "At PromLabels (newStoreSeriesSet s) = Inl IndexOutOfRange"
    by (simp_all add: At_def newStoreSeriesSet_def)
  have err: "Err (snd (Nexts n (newStoreSeriesSet s))) = None"
    by (simp add: Err_def)
  from res ixn at inrange ix err fresh fresh_at show ?thesis
    by blast
qed

theorem storeSeriesSet_iteration_witness:
  "fst (Nexts 4 (newStoreSeriesSet
          [Some \<lparr>Labels = ''a'', Chunks = [1 :: nat]\<rparr>, Some \<lparr>Labels = ''b'', Chunks = [2, 3]\<rparr>,
           None]))
     = [True, True, True, False]
   \<and> i (snd (Nexts 4 (newStoreSeriesSet
          [Some \<lparr>Labels = ''a'', Chunks = [1 :: nat]\<rparr>, Some \<lparr>Labels = ''b'', Chunks = [2, 3]\<rparr>,
           None]))) = 2
   \<and> (1 :: nat) \<le> 2
   \<and> 2 \<le> length
        [Some \<lparr>Labels = ''a'', Chunks = [1 :: nat]\<rparr>, Some \<lparr>Labels = ''b'', Chunks = [2, 3]\<rparr>,
         None]
   \<and> i (snd (Nexts 2 (newStoreSeriesSet
          [Some \<lparr>Labels = ''a'', Chunks = [1 :: nat]\<rparr>, Some \<lparr>Labels = ''b'', Chunks = [2, 3]\<rparr>,
           None]))) = 1
   \<and> At Labels (snd (Nexts 2 (newStoreSeriesSet
          [Some \<lparr>Labels = ''a'', Chunks = [1 :: nat]\<rparr>, Some \<lparr>Labels = ''b'', Chunks = [2, 3]\<rparr>,
           None])))
       = Inr (''b'', [2, 3])
   \<and> At Labels (snd (Nexts 3 (newStoreSeriesSet
          [Some \<lparr>Labels = ''a'', Chunks = [1 :: nat]\<rparr>, Some \<lparr>Labels = ''b'', Chunks = [2, 3]\<rparr>,
           None])))
       = Inl NilDereference
   \<and> At Labels (newStoreSeriesSet
          [Some \<lparr>Labels = ''a'', Chunks = [1 :: nat]\<rparr>, Some \<lparr>Labels = ''b'', Chunks = [2, 3]\<rparr>,
           None])
       = Inl IndexOutOfRange"
proof -
  let ?s = "[Some \<lparr>Labels = ''a'', Chunks = [1 :: nat]\<rparr>,
             Some \<lparr>Labels = ''b'', Chunks = [2, 3]\<rparr>, None]"
  have len: "(1 :: nat) \<le> 2 \<and> 2 \<le> length ?s" "(1 :: nat) \<le> 3 \<and> 3 \<le> length ?s"
    by simp_all
  have r: "replicate (min 4 (length ?s)) True @ replicate (4 - length ?s) False
             = [True, True, True, False]"
    by (simp add: numeral_3_eq_3)
  have e: "?s ! (2 - 1) = Some \<lparr>Labels = ''b'', Chunks = [2, 3]\<rparr>" "?s ! (3 - 1) = None"
    by simp_all
  from storeSeriesSet_iteration [of 4 ?s 2 Labels] storeSeriesSet_iteration [of 4 ?s 3 Labels]
    len r e
  show ?thesis by simp
qed

text \<open>
  The claim as the specification states it, that \<open>At\<close> returns the labels and the chunks
  of the entry after every \<open>Next\<close> that returned \<open>true\<close>, fails on a list that holds a
  nil pointer: \<open>Next\<close> returns \<open>true\<close>, the index is in range, and \<open>At\<close> panics.
\<close>

theorem At_nil_entry_counterexample:
  "fst (Nexts 1 (newStoreSeriesSet [None :: (string, nat) Series option])) = [True]
   \<and> i (snd (Nexts 1 (newStoreSeriesSet [None :: (string, nat) Series option]))) = 0
   \<and> At Labels (snd (Nexts 1 (newStoreSeriesSet [None :: (string, nat) Series option])))
       = Inl NilDereference"
  by (simp add: newStoreSeriesSet_def Next_def At_def)

section \<open>Package runtimeconfig: the loops over the listeners\<close>

lemma CloseListenerChannel_range_remove1:
  "listeners w = pre @ xs \<Longrightarrow> l \<notin> set pre \<Longrightarrow>
   CloseListenerChannel_range (length pre) xs l w =
     (if l \<in> set xs then closechan l (w\<lparr>listeners := pre @ remove1 l xs\<rparr>) else Inr w)"
proof (induction xs arbitrary: pre)
  case Nil
  then show ?case by simp
next
  case (Cons ch rest)
  show ?case
  proof (cases "ch = l")
    case True
    with Cons.prems show ?thesis by simp
  next
    case False
    have "CloseListenerChannel_range (length (pre @ [ch])) rest l w =
     (if l \<in> set rest then closechan l (w\<lparr>listeners := (pre @ [ch]) @ remove1 l rest\<rparr>) else Inr w)"
      using Cons.prems False by (intro Cons.IH) auto
    with False show ?thesis by simp
  qed
qed

lemma CloseListenerChannel_remove1:
  "CloseListenerChannel l w =
     (if l \<in> set (listeners w) then closechan l (w\<lparr>listeners := remove1 l (listeners w)\<rparr>)
      else Inr w)"
  using CloseListenerChannel_range_remove1 [of w "[]" "listeners w" l]
  by (simp add: CloseListenerChannel_def)

lemma length_fanout [simp]: "length (fanout v xs chs) = length chs"
  by (simp add: fanout_def)

lemma nth_fanout:
  "k < length chs \<Longrightarrow>
   fanout v xs chs ! k =
     (if k \<in> set xs \<and> canSend (chs ! k) then deliver v (chs ! k) else chs ! k)"
  by (simp add: fanout_def)

lemma fanout_Nil [simp]: "fanout v [] chs = chs"
  by (simp add: fanout_def map_nth)

lemma length_closeAll [simp]: "length (closeAll xs chs) = length chs"
  by (simp add: closeAll_def)

lemma nth_closeAll:
  "k < length chs \<Longrightarrow>
   closeAll xs chs ! k =
     (if k \<in> set xs then (chs ! k)\<lparr>closed := True, receivers := 0\<rparr> else chs ! k)"
  by (simp add: closeAll_def)

lemma closeAll_Nil [simp]: "closeAll [] chs = chs"
  by (simp add: closeAll_def map_nth)

lemma selectnbsend_open:
  "c < length (chans w) \<Longrightarrow> \<not> closed (chans w ! c) \<Longrightarrow>
   selectnbsend c v w =
     (if canSend (chans w ! c)
      then Inr (True, w\<lparr>chans := (chans w)[c := deliver v (chans w ! c)],
                        trace := trace w @ [ChanSend c v]\<rparr>)
      else Inr (False, w))"
  by (simp add: selectnbsend_def canSend_def deliver_def)

lemma closed_deliver [simp]: "closed (deliver v ch) = closed ch"
  by (simp add: deliver_def)

lemma fanout_Cons:
  "c \<notin> set xs \<Longrightarrow> c < length chs \<Longrightarrow>
   fanout v (c # xs) chs =
     fanout v xs (if canSend (chs ! c) then chs[c := deliver v (chs ! c)] else chs)"
  by (rule nth_equalityI) (auto simp: nth_fanout nth_list_update)

lemma callListeners_range_fanout:
  "distinct xs \<Longrightarrow> \<forall>c\<in>set xs. c < length (chans w) \<and> \<not> closed (chans w ! c) \<Longrightarrow>
   callListeners_range xs v w =
     Inr (w\<lparr>chans := fanout v xs (chans w),
            trace := trace w @ map (\<lambda>c. ChanSend c v) (filter (\<lambda>c. canSend (chans w ! c)) xs)\<rparr>)"
proof (induction xs arbitrary: w)
  case Nil
  then show ?case by simp
next
  case (Cons c xs)
  from Cons.prems have c: "c < length (chans w)" "\<not> closed (chans w ! c)" "c \<notin> set xs"
    and xs: "distinct xs" "\<forall>d\<in>set xs. d < length (chans w) \<and> \<not> closed (chans w ! d)"
    by auto
  show ?case
  proof (cases "canSend (chans w ! c)")
    case True
    let ?w = "w\<lparr>chans := (chans w)[c := deliver v (chans w ! c)],
                 trace := trace w @ [ChanSend c v]\<rparr>"
    have pre: "\<forall>d\<in>set xs. d < length (chans ?w) \<and> \<not> closed (chans ?w ! d)"
      using xs c by (auto simp: nth_list_update)
    have same: "filter (\<lambda>d. canSend (chans ?w ! d)) xs = filter (\<lambda>d. canSend (chans w ! d)) xs"
      using c by (intro filter_cong) (auto simp: nth_list_update)
    show ?thesis
      using True c Cons.IH [OF xs(1) pre] same
      by (simp add: selectnbsend_open fanout_Cons)
  next
    case False
    then show ?thesis
      using c Cons.IH [OF xs] by (simp add: selectnbsend_open fanout_Cons)
  qed
qed

lemma closechan_open:
  "c < length (chans w) \<Longrightarrow> \<not> closed (chans w ! c) \<Longrightarrow>
   closechan c w =
     Inr (w\<lparr>chans := (chans w)[c := (chans w ! c)\<lparr>closed := True, receivers := 0\<rparr>],
            trace := trace w @ [ChanClose c]\<rparr>)"
  by (simp add: closechan_def)

lemma closeAll_Cons:
  "c < length chs \<Longrightarrow>
   closeAll (c # xs) chs = closeAll xs (chs[c := (chs ! c)\<lparr>closed := True, receivers := 0\<rparr>])"
  by (rule nth_equalityI) (auto simp: nth_closeAll nth_list_update)

lemma stopping_range_closeAll:
  "distinct xs \<Longrightarrow> \<forall>c\<in>set xs. c < length (chans w) \<and> \<not> closed (chans w ! c) \<Longrightarrow>
   stopping_range xs w =
     Inr (w\<lparr>chans := closeAll xs (chans w), trace := trace w @ map ChanClose xs\<rparr>)"
proof (induction xs arbitrary: w)
  case Nil
  then show ?case by simp
next
  case (Cons c xs)
  from Cons.prems have c: "c < length (chans w)" "\<not> closed (chans w ! c)" "c \<notin> set xs"
    and xs: "distinct xs" "\<forall>d\<in>set xs. d < length (chans w) \<and> \<not> closed (chans w ! d)"
    by auto
  let ?w = "w\<lparr>chans := (chans w)[c := (chans w ! c)\<lparr>closed := True, receivers := 0\<rparr>],
               trace := trace w @ [ChanClose c]\<rparr>"
  have pre: "\<forall>d\<in>set xs. d < length (chans ?w) \<and> \<not> closed (chans ?w ! d)"
    using xs c by (auto simp: nth_list_update)
  show ?case
    using c Cons.IH [OF xs(1) pre] by (simp add: closechan_open closeAll_Cons)
qed

section \<open>Package runtimeconfig: one reload cycle\<close>

lemma registry_ok_open:
  "registry_ok w \<Longrightarrow>
   distinct (listeners w) \<and> (\<forall>c\<in>set (listeners w). c < length (chans w) \<and> \<not> closed (chans w ! c))"
  by (auto simp: registry_ok_def)

lemma callListeners_fanout:
  "distinct (listeners w) \<Longrightarrow>
   \<forall>c\<in>set (listeners w). c < length (chans w) \<and> \<not> closed (chans w ! c) \<Longrightarrow>
   callListeners v w =
     Inr (w\<lparr>chans := fanout v (listeners w) (chans w),
            trace := trace w
              @ map (\<lambda>c. ChanSend c v) (filter (\<lambda>c. canSend (chans w ! c)) (listeners w))\<rparr>)"
  by (simp add: callListeners_def callListeners_range_fanout)

lemma loadConfig_loaded:
  assumes ok: "registry_ok w"
    and b: "bucketClient w = Some b"
    and get: "store b (LoadPath (cfg w)) = GetReader B None None"
    and ld: "Loader (cfg w) = Some ld" "ld B = (v, None)"
  shows "loadConfig S store w =
     Inr (None,
          w\<lparr>config := v, configLoadSuccess := 1,
            configHash := [Sprintf_x (S B) \<mapsto> 1],
            chans := fanout v (listeners w) (chans w),
            trace := trace w
              @ [BucketGet (LoadPath (cfg w)), LoaderCall B, SuccessSet 1, ConfigStore v]
              @ map (\<lambda>c. ChanSend c v) (filter (\<lambda>c. canSend (chans w ! c)) (listeners w))
              @ [HashReset, HashSet (Sprintf_x (S B)) 1]\<rparr>)"
proof -
  let ?w2 = "w\<lparr>trace := trace w @ [BucketGet (LoadPath (cfg w)), LoaderCall B]\<rparr>"
  let ?w3 = "setConfig v (configLoadSuccess_Set 1 ?w2)"
  have fetch: "loadConfigFromBucket store w =
      Inr ((B, None), w\<lparr>trace := trace w @ [BucketGet (LoadPath (cfg w))]\<rparr>)"
    using b get by (simp add: loadConfigFromBucket_def)
  have pre: "distinct (listeners ?w3)"
    "\<forall>c\<in>set (listeners ?w3). c < length (chans ?w3) \<and> \<not> closed (chans ?w3 ! c)"
    using registry_ok_open [OF ok] by (simp_all add: setConfig_def configLoadSuccess_Set_def)
  have "loadConfig S store w =
      (case callListeners v ?w3 of
         Inl p \<Rightarrow> Inl p
       | Inr w3 \<Rightarrow> Inr (None, configHash_Set (Sprintf_x (S B)) 1 (configHash_Reset w3)))"
    using ld by (simp add: loadConfig_def fetch)
  also have "\<dots> = Inr (None,
          w\<lparr>config := v, configLoadSuccess := 1,
            configHash := [Sprintf_x (S B) \<mapsto> 1],
            chans := fanout v (listeners w) (chans w),
            trace := trace w
              @ [BucketGet (LoadPath (cfg w)), LoaderCall B, SuccessSet 1, ConfigStore v]
              @ map (\<lambda>c. ChanSend c v) (filter (\<lambda>c. canSend (chans w ! c)) (listeners w))
              @ [HashReset, HashSet (Sprintf_x (S B)) 1]\<rparr>)"
    unfolding callListeners_fanout [OF pre]
    by (simp add: setConfig_def configLoadSuccess_Set_def configHash_Reset_def configHash_Set_def)
  finally show ?thesis .
qed

lemma loadConfig_failed:
  assumes fetch: "loadConfigFromBucket store w = Inr ((buf, err), w1)"
    and bad: "err \<noteq> None \<or> (\<exists>ld. Loader (cfg w) = Some ld \<and> snd (ld buf) \<noteq> None)"
  shows "\<exists>e tr. loadConfig S store w =
           Inr (Some e, w\<lparr>configLoadSuccess := 0, trace := trace w @ tr @ [SuccessSet 0]\<rparr>)
           \<and> set tr \<subseteq> {BucketGet (LoadPath (cfg w)), LoaderCall buf}"
proof -
  from fetch obtain b where b: "bucketClient w = Some b"
    and w1: "w1 = w\<lparr>trace := trace w @ [BucketGet (LoadPath (cfg w))]\<rparr>"
    by (auto simp: loadConfigFromBucket_def Let_def split: option.splits get_result.splits)
  show ?thesis
  proof (cases err)
    case (Some e)
    then show ?thesis
      using fetch w1
      by (intro exI [of _ "''read file'' @ '': '' @ e"] exI [of _ "[BucketGet (LoadPath (cfg w))]"])
         (simp add: loadConfig_def Wrap_def configLoadSuccess_Set_def)
  next
    case None
    with bad obtain ld e where ld: "Loader (cfg w) = Some ld" "snd (ld buf) = Some e"
      by auto
    then obtain v where "ld buf = (v, Some e)"
      by (cases "ld buf") auto
    then show ?thesis
      using fetch w1 None ld
      by (intro exI [of _ "''load file'' @ '': '' @ e"]
                exI [of _ "[BucketGet (LoadPath (cfg w)), LoaderCall buf]"])
         (simp add: loadConfig_def Wrap_def configLoadSuccess_Set_def)
  qed
qed

section \<open>Package runtimeconfig: what every action keeps\<close>

lemma sent_append [simp]: "sent c (xs @ ys) = sent c xs @ sent c ys"
  by (induction c xs rule: sent.induct) auto

lemma count_list_ChanClose [simp]:
  "count_list (map ChanClose xs) (ChanClose c) = count_list xs c"
  by (induction xs) auto

lemma count_list_ChanSend [simp]:
  "count_list (map (\<lambda>d. ChanSend d v) xs) (ChanClose c) = 0"
  by (induction xs) auto

lemma count_list_distinct:
  "distinct xs \<Longrightarrow> count_list xs c = (if c \<in> set xs then 1 else 0)"
  by (induction xs) auto

lemma sent_ChanClose [simp]: "sent c (map ChanClose xs) = []"
  by (induction xs) auto

lemma sent_ChanSend_other:
  "c \<notin> set xs \<Longrightarrow> sent c (map (\<lambda>d. ChanSend d v) xs) = []"
  by (induction xs) auto

lemma sent_ChanSend_distinct:
  "distinct xs \<Longrightarrow> c \<in> set xs \<Longrightarrow> sent c (map (\<lambda>d. ChanSend d v) xs) = [v]"
  by (induction xs) (auto simp: sent_ChanSend_other)

lemma keeps_registry_refl [simp]: "keeps_registry w w"
  by (simp add: keeps_registry_def)

lemma map_closed_eq:
  "map closed chs' = map closed chs \<Longrightarrow>
   length chs' = length chs \<and> (\<forall>c<length chs. closed (chs' ! c) = closed (chs ! c))"
  by (metis length_map nth_map)

lemma keeps_registry_trans:
  "keeps_registry w w' \<Longrightarrow> keeps_registry w' w'' \<Longrightarrow> keeps_registry w w''"
  unfolding keeps_registry_def
  by (auto dest!: map_closed_eq)

lemma keeps_registry_ok:
  "keeps_registry w w' \<Longrightarrow> registry_ok w \<Longrightarrow> registry_ok w'"
  unfolding keeps_registry_def registry_ok_def
  by (auto dest!: map_closed_eq)

lemma keeps_registry_closed_stay:
  "keeps_registry w w' \<Longrightarrow> closed_stay w w'"
  unfolding keeps_registry_def closed_stay_def
  by (auto dest!: map_closed_eq)

lemma closed_stay_refl [simp]: "closed_stay w w"
  by (simp add: closed_stay_def)

lemma closed_stay_trans:
  "closed_stay w w' \<Longrightarrow> closed_stay w' w'' \<Longrightarrow> closed_stay w w''"
  unfolding closed_stay_def by fastforce

lemma map_closed_update:
  assumes "closed ch = closed (chs ! c)"
  shows "map closed (chs[c := ch]) = map closed chs"
proof (rule nth_equalityI)
  show "length (map closed (chs[c := ch])) = length (map closed chs)"
    by simp
next
  fix k
  assume "k < length (map closed (chs[c := ch]))"
  then show "map closed (chs[c := ch]) ! k = map closed chs ! k"
    using assms by (cases "k = c") simp_all
qed

lemma selectnbsend_keeps:
  "selectnbsend c v w = Inr (t, w') \<Longrightarrow> keeps_registry w w'"
  by (auto simp: selectnbsend_def keeps_registry_def map_closed_update split: if_splits)

lemma callListeners_range_keeps:
  "callListeners_range xs v w = Inr w' \<Longrightarrow> keeps_registry w w'"
proof (induction xs arbitrary: w)
  case Nil
  then show ?case by simp
next
  case (Cons c xs)
  then show ?case
    by (auto split: sum.splits intro: keeps_registry_trans selectnbsend_keeps)
qed

lemma callListeners_keeps:
  "callListeners v w = Inr w' \<Longrightarrow> keeps_registry w w'"
  by (simp add: callListeners_def callListeners_range_keeps)

lemma loadConfigFromBucket_keeps:
  "loadConfigFromBucket store w = Inr (r, w1) \<Longrightarrow> keeps_registry w w1"
  by (auto simp: loadConfigFromBucket_def Let_def keeps_registry_def
      split: option.splits get_result.splits)

lemma configLoadSuccess_Set_keeps [simp]: "keeps_registry w (configLoadSuccess_Set x w)"
  by (simp add: configLoadSuccess_Set_def keeps_registry_def)

lemma setConfig_keeps [simp]: "keeps_registry w (setConfig v w)"
  by (simp add: setConfig_def keeps_registry_def)

lemma configHash_Reset_keeps [simp]: "keeps_registry w (configHash_Reset w)"
  by (simp add: configHash_Reset_def keeps_registry_def)

lemma configHash_Set_keeps [simp]: "keeps_registry w (configHash_Set l x w)"
  by (simp add: configHash_Set_def keeps_registry_def)

lemma LoaderCall_keeps [simp]: "keeps_registry w (w\<lparr>trace := trace w @ [LoaderCall b]\<rparr>)"
  by (simp add: keeps_registry_def)

lemma loadConfig_keeps:
  assumes "loadConfig S store w = Inr (e, w')"
  shows "keeps_registry w w'"
proof -
  from assms obtain buf err w1 where fetch: "loadConfigFromBucket store w = Inr ((buf, err), w1)"
    by (auto simp: loadConfig_def split: sum.splits)
  have k1: "keeps_registry w w1"
    using fetch by (rule loadConfigFromBucket_keeps)
  show ?thesis
  proof (cases err)
    case (Some x)
    with assms fetch have "w' = configLoadSuccess_Set 0 w1"
      by (simp add: loadConfig_def)
    with k1 show ?thesis
      by (auto intro: keeps_registry_trans)
  next
    case None
    with assms fetch obtain ld where ld: "Loader (cfg w1) = Some ld"
      by (auto simp: loadConfig_def split: option.splits)
    let ?w2 = "w1\<lparr>trace := trace w1 @ [LoaderCall buf]\<rparr>"
    have k2: "keeps_registry w ?w2"
      using k1 by (auto intro: keeps_registry_trans)
    obtain v derr where res: "ld buf = (v, derr)"
      by (cases "ld buf")
    show ?thesis
    proof (cases derr)
      case (Some x)
      with assms fetch None ld res have "w' = configLoadSuccess_Set 0 ?w2"
        by (simp add: loadConfig_def)
      with k2 show ?thesis
        by (auto intro: keeps_registry_trans)
    next
      case None': None
      let ?w3 = "setConfig v (configLoadSuccess_Set 1 ?w2)"
      from assms fetch None ld res None' obtain w4
        where cl: "callListeners v ?w3 = Inr w4"
          and w': "w' = configHash_Set (Sprintf_x (S buf)) 1 (configHash_Reset w4)"
        by (auto simp: loadConfig_def split: sum.splits)
      have "keeps_registry ?w2 ?w3"
        by (rule keeps_registry_trans [OF configLoadSuccess_Set_keeps setConfig_keeps])
      moreover have "keeps_registry ?w3 w4"
        using cl by (rule callListeners_keeps)
      moreover have "keeps_registry w4 w'"
        unfolding w' by (rule keeps_registry_trans [OF configHash_Reset_keeps configHash_Set_keeps])
      ultimately show ?thesis
        using k2 by (blast intro: keeps_registry_trans)
    qed
  qed
qed

lemma bucketClient_keeps [simp]: "keeps_registry w (w\<lparr>bucketClient := b\<rparr>)"
  by (simp add: keeps_registry_def)

lemma starting_keeps:
  assumes "starting S store w = Inr (e, w')"
  shows "keeps_registry w w'"
proof (cases "LoadPath (cfg w) = []")
  case True
  with assms show ?thesis by (simp add: starting_def)
next
  case False
  with assms obtain b err where fac: "bucketClientFactory w = Some (b, err)"
    by (auto simp: starting_def split: option.splits)
  show ?thesis
  proof (cases err)
    case (Some x)
    with assms False fac show ?thesis
      by (auto simp: starting_def)
  next
    case None
    with assms False fac obtain e2 where "loadConfig S store (w\<lparr>bucketClient := b\<rparr>) = Inr (e2, w')"
      by (auto simp: starting_def split: sum.splits)
    from loadConfig_keeps [OF this] show ?thesis
      by (blast intro: keeps_registry_trans bucketClient_keeps)
  qed
qed

lemma chanrecv_keeps: "keeps_registry w (chanrecv c w)"
  by (simp add: chanrecv_def keeps_registry_def map_closed_update)

lemma abandon_keeps: "keeps_registry w (abandon c w)"
  by (simp add: abandon_def keeps_registry_def map_closed_update)

lemma CreateListenerChannel_result:
  "0 \<le> n \<Longrightarrow>
   CreateListenerChannel n w =
     Inr (length (chans w),
          w\<lparr>listeners := listeners w @ [length (chans w)],
            chans := chans w @ [\<lparr>capacity = nat n, queue = [], closed = False, receivers = 0\<rparr>]\<rparr>)"
  by (simp add: CreateListenerChannel_def makechan_def)

lemma CreateListenerChannel_panic:
  "n < 0 \<Longrightarrow> CreateListenerChannel n w = Inl MakechanSizeOutOfRange"
  by (simp add: CreateListenerChannel_def makechan_def)

lemma CreateListenerChannel_ok:
  assumes "CreateListenerChannel n w = Inr (ch, w')" and ok: "registry_ok w"
  shows "registry_ok w' \<and> closed_stay w w'"
proof -
  from assms have n: "0 \<le> n"
    by (cases "n < 0") (simp_all add: CreateListenerChannel_panic)
  from assms(1) have w': "w' = w\<lparr>listeners := listeners w @ [length (chans w)],
            chans := chans w @ [\<lparr>capacity = nat n, queue = [], closed = False, receivers = 0\<rparr>]\<rparr>"
    unfolding CreateListenerChannel_result [OF n] by auto
  from ok have fresh: "length (chans w) \<notin> set (listeners w)"
    by (auto simp: registry_ok_def)
  have "registry_ok w'"
    using ok fresh unfolding w' registry_ok_def
    by (auto simp: nth_append less_Suc_eq)
  moreover have "closed_stay w w'"
    unfolding w' closed_stay_def by (simp add: nth_append)
  ultimately show ?thesis ..
qed

lemma CloseListenerChannel_registered:
  assumes ok: "registry_ok w" and l: "l \<in> set (listeners w)"
  shows "CloseListenerChannel l w =
     Inr (w\<lparr>listeners := remove1 l (listeners w),
            chans := (chans w)[l := (chans w ! l)\<lparr>closed := True, receivers := 0\<rparr>],
            trace := trace w @ [ChanClose l]\<rparr>)"
proof -
  from ok l have "l < length (chans w)" "\<not> closed (chans w ! l)"
    by (auto simp: registry_ok_def)
  then show ?thesis
    using l by (simp add: CloseListenerChannel_remove1 closechan_def)
qed

lemma CloseListenerChannel_ok:
  assumes "CloseListenerChannel l w = Inr w'" and ok: "registry_ok w"
  shows "registry_ok w' \<and> closed_stay w w'"
proof (cases "l \<in> set (listeners w)")
  case False
  with assms show ?thesis
    by (simp add: CloseListenerChannel_remove1)
next
  case True
  from assms CloseListenerChannel_registered [OF ok True]
  have w': "w' = w\<lparr>listeners := remove1 l (listeners w),
            chans := (chans w)[l := (chans w ! l)\<lparr>closed := True, receivers := 0\<rparr>],
            trace := trace w @ [ChanClose l]\<rparr>"
    by simp
  from ok True have l: "l < length (chans w)" "\<not> closed (chans w ! l)" "distinct (listeners w)"
    by (auto simp: registry_ok_def)
  have "registry_ok w'"
    using ok l unfolding w' registry_ok_def
    by (auto simp: nth_list_update dest: notin_set_remove1)
  moreover have "closed_stay w w'"
    using l unfolding w' closed_stay_def by (auto simp: nth_list_update)
  ultimately show ?thesis ..
qed

lemma stopping_result:
  assumes ok: "registry_ok w"
  shows "stopping w =
     Inr (None,
          w\<lparr>listeners := [], chans := closeAll (listeners w) (chans w),
            trace := trace w @ map ChanClose (listeners w)\<rparr>)"
  using registry_ok_open [OF ok]
  by (simp add: stopping_def stopping_range_closeAll)

lemma stopping_ok:
  assumes "stopping w = Inr (e, w')" and ok: "registry_ok w"
  shows "registry_ok w' \<and> closed_stay w w'"
proof -
  from assms stopping_result [OF ok]
  have w': "w' = w\<lparr>listeners := [], chans := closeAll (listeners w) (chans w),
            trace := trace w @ map ChanClose (listeners w)\<rparr>"
    by simp
  have "registry_ok w'"
    using ok unfolding w' registry_ok_def
    by (auto simp: nth_closeAll count_list_distinct)
  moreover have "closed_stay w w'"
    unfolding w' closed_stay_def by (auto simp: nth_closeAll)
  ultimately show ?thesis ..
qed

lemma step_ok:
  assumes "step S a w = Inr w'" and ok: "registry_ok w"
  shows "registry_ok w' \<and> closed_stay w w'"
proof (cases a)
  case (Starting store)
  with assms obtain e where "starting S store w = Inr (e, w')"
    by (auto split: sum.splits)
  from starting_keeps [OF this] ok show ?thesis
    by (blast intro: keeps_registry_ok keeps_registry_closed_stay)
next
  case (Reload store)
  with assms obtain e where "loadConfig S store w = Inr (e, w')"
    by (auto split: sum.splits)
  from loadConfig_keeps [OF this] ok show ?thesis
    by (blast intro: keeps_registry_ok keeps_registry_closed_stay)
next
  case (Subscribe n)
  with assms obtain ch where "CreateListenerChannel n w = Inr (ch, w')"
    by (auto split: sum.splits)
  from CreateListenerChannel_ok [OF this ok] show ?thesis .
next
  case (Unsubscribe l)
  with assms have "CloseListenerChannel l w = Inr w'"
    by simp
  from CloseListenerChannel_ok [OF this ok] show ?thesis .
next
  case Stopping
  with assms obtain e where "stopping w = Inr (e, w')"
    by (auto split: sum.splits)
  from stopping_ok [OF this ok] show ?thesis .
next
  case (Receive c)
  with assms have "w' = chanrecv c w" by simp
  with chanrecv_keeps [of w c] ok show ?thesis
    by (blast intro: keeps_registry_ok keeps_registry_closed_stay)
next
  case (Abandon c)
  with assms have "w' = abandon c w" by simp
  with abandon_keeps [of w c] ok show ?thesis
    by (blast intro: keeps_registry_ok keeps_registry_closed_stay)
qed

lemma run_ok:
  "run S acts w = Inr w' \<Longrightarrow> registry_ok w \<Longrightarrow> registry_ok w' \<and> closed_stay w w'"
proof (induction acts arbitrary: w)
  case Nil
  then show ?case by simp
next
  case (Cons a acts)
  from Cons.prems obtain w1 where s: "step S a w = Inr w1" and r: "run S acts w1 = Inr w'"
    by (auto split: sum.splits)
  from step_ok [OF s Cons.prems(2)] have "registry_ok w1" "closed_stay w w1"
    by simp_all
  with Cons.IH [OF r] show ?case
    by (blast intro: closed_stay_trans)
qed

lemma New_boot_ok:
  "New F c fac = (Some m, e) \<Longrightarrow> registry_ok (boot m)"
  by (auto simp: New_def boot_def registry_ok_def Let_def split: if_splits)

lemma run_New_ok:
  "New F c fac = (Some m, e) \<Longrightarrow> run S acts (boot m) = Inr w \<Longrightarrow> registry_ok w"
  using run_ok New_boot_ok by blast

section \<open>Package runtimeconfig: the listener registry\<close>

lemma New_mgrA: "New ''filesystem'' cfgA facA = (Some mgrA, None)"
  by (simp add: New_def cfgA_def mgrA_def)

lemma remove1_distinct_filter:
  "distinct xs \<Longrightarrow> remove1 l xs = filter (\<lambda>ch. ch \<noteq> l) xs"
  by (induction xs) (auto simp: remove1_idem)

text \<open>
  Claim C6. In every world a manager built by \<open>New\<close> can reach, \<open>CloseListenerChannel\<close>
  never panics. With a channel that is not registered (never created by the manager,
  or already removed) it changes nothing. With a registered channel it removes that
  entry, closes that channel and touches nothing else: the other listeners stay
  registered in their order and every other channel is as it was; a second call with
  the same channel then changes nothing.
\<close>

theorem CloseListenerChannel_idempotent:
  assumes "New F c fac = (Some m, e)" and "run S acts (boot m) = Inr w"
  shows "(l \<notin> set (listeners w) \<longrightarrow> CloseListenerChannel l w = Inr w)
    \<and> (l \<in> set (listeners w) \<longrightarrow>
         (\<exists>w'. CloseListenerChannel l w = Inr w'
            \<and> CloseListenerChannel l w' = Inr w'
            \<and> w' = w\<lparr>listeners := filter (\<lambda>ch. ch \<noteq> l) (listeners w),
                      chans := (chans w)[l := (chans w ! l)\<lparr>closed := True, receivers := 0\<rparr>],
                      trace := trace w @ [ChanClose l]\<rparr>
            \<and> l < length (chans w) \<and> \<not> closed (chans w ! l) \<and> closed (chans w' ! l)
            \<and> (\<forall>ch. ch \<noteq> l \<longrightarrow> chans w' ! ch = chans w ! ch)
            \<and> set (listeners w') = set (listeners w) - {l}))"
proof -
  have ok: "registry_ok w"
    using assms by (rule run_New_ok)
  have unknown: "CloseListenerChannel l w = Inr w" if "l \<notin> set (listeners w)" for w :: "'a world"
    using that by (simp add: CloseListenerChannel_remove1)
  have known: ?thesis if l: "l \<in> set (listeners w)"
  proof -
    let ?w = "w\<lparr>listeners := filter (\<lambda>ch. ch \<noteq> l) (listeners w),
                 chans := (chans w)[l := (chans w ! l)\<lparr>closed := True, receivers := 0\<rparr>],
                 trace := trace w @ [ChanClose l]\<rparr>"
    from ok l have opn: "l < length (chans w)" "\<not> closed (chans w ! l)"
      and d: "distinct (listeners w)"
      by (auto simp: registry_ok_def)
    from d have rm: "remove1 l (listeners w) = filter (\<lambda>ch. ch \<noteq> l) (listeners w)"
      by (rule remove1_distinct_filter)
    have first: "CloseListenerChannel l w = Inr ?w"
      using CloseListenerChannel_registered [OF ok l] rm by simp
    have "l \<notin> set (listeners ?w)"
      by simp
    then have second: "CloseListenerChannel l ?w = Inr ?w"
      by (rule unknown)
    show ?thesis
      using l first second opn by auto
  qed
  show ?thesis
    using unknown known by blast
qed

lemma run_worldA: "run (\<lambda>b. b) [Subscribe 1, Subscribe 0] (boot mgrA) = Inr worldA"
  by (simp add: worldA_def boot_def mgrA_def CreateListenerChannel_def makechan_def)

theorem CloseListenerChannel_idempotent_witness:
  "New ''filesystem'' cfgA facA = (Some mgrA, None)
   \<and> run (\<lambda>b. b) [Subscribe 1, Subscribe 0] (boot mgrA) = Inr worldA
   \<and> listeners worldA = [0, 1]
   \<and> CloseListenerChannel 0 worldA =
        Inr (worldA\<lparr>listeners := [1],
               chans := [\<lparr>capacity = 1, queue = [], closed = True, receivers = 0\<rparr>,
                         \<lparr>capacity = 0, queue = [], closed = False, receivers = 0\<rparr>],
               trace := [ChanClose 0]\<rparr>)
   \<and> CloseListenerChannel 0
        (worldA\<lparr>listeners := [1],
               chans := [\<lparr>capacity = 1, queue = [], closed = True, receivers = 0\<rparr>,
                         \<lparr>capacity = 0, queue = [], closed = False, receivers = 0\<rparr>],
               trace := [ChanClose 0]\<rparr>) =
        Inr (worldA\<lparr>listeners := [1],
               chans := [\<lparr>capacity = 1, queue = [], closed = True, receivers = 0\<rparr>,
                         \<lparr>capacity = 0, queue = [], closed = False, receivers = 0\<rparr>],
               trace := [ChanClose 0]\<rparr>)
   \<and> 7 \<notin> set (listeners worldA)
   \<and> CloseListenerChannel 7 worldA = Inr worldA"
proof -
  have l: "listeners worldA = [0, 1]" "chans worldA =
      [\<lparr>capacity = 1, queue = [], closed = False, receivers = 0\<rparr>,
       \<lparr>capacity = 0, queue = [], closed = False, receivers = 0\<rparr>]" "trace worldA = []"
    by (simp_all add: worldA_def boot_def)
  from CloseListenerChannel_idempotent [OF New_mgrA run_worldA, of 0]
       CloseListenerChannel_idempotent [OF New_mgrA run_worldA, of 7]
  show ?thesis
    using New_mgrA run_worldA by (simp add: l)
qed

section \<open>Package runtimeconfig: publishing to the listeners\<close>

lemma Sprintf_x_example: "Sprintf_x [1, 255] = ''01ff''"
  by (simp add: Sprintf_x_def hexbyte_def hexdigit_def)

lemma run_worldC:
  "run (\<lambda>b. b) [Starting storeA, Subscribe 1, Subscribe 0, Subscribe 0, Receive 2] (boot mgrA)
     = Inr worldC"
  by (simp add: worldC_def boot_def mgrA_def cfgA_def facA_def storeA_def loaderA_def
      starting_def loadConfig_def loadConfigFromBucket_def callListeners_def
      setConfig_def configLoadSuccess_Set_def configHash_Reset_def configHash_Set_def
      Sprintf_x_example Wrap_def CreateListenerChannel_def makechan_def chanrecv_def)

text \<open>
  Claim C4. In every world a manager built by \<open>New\<close> can reach, \<open>callListeners\<close> returns
  (it neither parks nor panics) and changes nothing but the channels and the history:
  a listener channel with a parked receiver or with room in its buffer at that moment
  takes the value, once; a listener channel with neither is exactly as before and the
  value is nowhere recorded for it. The same holds for the publish of a reload cycle
  that succeeds from such a world.
\<close>

theorem callListeners_never_blocks:
  assumes "New F c fac = (Some m, e)" and "run S acts (boot m) = Inr w"
  shows "(\<exists>w'. callListeners v w = Inr w'
            \<and> w' = w\<lparr>chans := chans w', trace := trace w'\<rparr>
            \<and> length (chans w') = length (chans w)
            \<and> (\<forall>ch\<in>set (listeners w).
                  (canSend (chans w ! ch) \<longrightarrow>
                     chans w' ! ch = deliver v (chans w ! ch)
                     \<and> sent ch (trace w') = sent ch (trace w) @ [v])
                  \<and> (\<not> canSend (chans w ! ch) \<longrightarrow>
                     chans w' ! ch = chans w ! ch
                     \<and> sent ch (trace w') = sent ch (trace w))))
    \<and> (bucketClient w = Some b \<and> store b (LoadPath (cfg w)) = GetReader B None None
         \<and> Loader (cfg w) = Some ld \<and> ld B = (v, None) \<longrightarrow>
         (\<exists>w'. loadConfig S store w = Inr (None, w')
            \<and> length (chans w') = length (chans w)
            \<and> (\<forall>ch\<in>set (listeners w).
                  (canSend (chans w ! ch) \<longrightarrow>
                     chans w' ! ch = deliver v (chans w ! ch)
                     \<and> sent ch (trace w') = sent ch (trace w) @ [v])
                  \<and> (\<not> canSend (chans w ! ch) \<longrightarrow>
                     chans w' ! ch = chans w ! ch
                     \<and> sent ch (trace w') = sent ch (trace w)))))"
proof -
  have ok: "registry_ok w"
    using assms by (rule run_New_ok)
  note opn = registry_ok_open [OF ok]
  then have d: "distinct (listeners w)" and alloc: "\<forall>ch\<in>set (listeners w). ch < length (chans w)"
    by auto
  have sends: "sent ch (map (\<lambda>c. ChanSend c v) (filter (\<lambda>c. canSend (chans w ! c)) (listeners w)))
      = (if canSend (chans w ! ch) then [v] else [])" if "ch \<in> set (listeners w)" for ch
    using that d by (auto simp: sent_ChanSend_distinct sent_ChanSend_other)
  let ?tr = "map (\<lambda>c. ChanSend c v) (filter (\<lambda>c. canSend (chans w ! c)) (listeners w))"
  have first: "callListeners v w =
      Inr (w\<lparr>chans := fanout v (listeners w) (chans w), trace := trace w @ ?tr\<rparr>)"
    using opn by (simp add: callListeners_fanout)
  have each: "\<forall>ch\<in>set (listeners w).
                  (canSend (chans w ! ch) \<longrightarrow>
                     fanout v (listeners w) (chans w) ! ch = deliver v (chans w ! ch)
                     \<and> sent ch (trace w @ pre @ ?tr @ post) = sent ch (trace w) @ [v])
                  \<and> (\<not> canSend (chans w ! ch) \<longrightarrow>
                     fanout v (listeners w) (chans w) ! ch = chans w ! ch
                     \<and> sent ch (trace w @ pre @ ?tr @ post) = sent ch (trace w))"
    if "\<forall>ch. sent ch pre = []" "\<forall>ch. sent ch post = []" for pre post :: "'a iface event list"
    using alloc sends that by (simp add: nth_fanout)
  have part1: "\<exists>w'. callListeners v w = Inr w'
            \<and> w' = w\<lparr>chans := chans w', trace := trace w'\<rparr>
            \<and> length (chans w') = length (chans w)
            \<and> (\<forall>ch\<in>set (listeners w).
                  (canSend (chans w ! ch) \<longrightarrow>
                     chans w' ! ch = deliver v (chans w ! ch)
                     \<and> sent ch (trace w') = sent ch (trace w) @ [v])
                  \<and> (\<not> canSend (chans w ! ch) \<longrightarrow>
                     chans w' ! ch = chans w ! ch
                     \<and> sent ch (trace w') = sent ch (trace w)))"
    using each [of "[]" "[]"] by (simp add: first)
  have part2: "\<exists>w'. loadConfig S store w = Inr (None, w')
            \<and> length (chans w') = length (chans w)
            \<and> (\<forall>ch\<in>set (listeners w).
                  (canSend (chans w ! ch) \<longrightarrow>
                     chans w' ! ch = deliver v (chans w ! ch)
                     \<and> sent ch (trace w') = sent ch (trace w) @ [v])
                  \<and> (\<not> canSend (chans w ! ch) \<longrightarrow>
                     chans w' ! ch = chans w ! ch
                     \<and> sent ch (trace w') = sent ch (trace w)))"
    if "bucketClient w = Some b" "store b (LoadPath (cfg w)) = GetReader B None None"
      "Loader (cfg w) = Some ld" "ld B = (v, None)"
    using each [of "[BucketGet (LoadPath (cfg w)), LoaderCall B, SuccessSet 1, ConfigStore v]"
        "[HashReset, HashSet (Sprintf_x (S B)) 1]"]
    by (simp add: loadConfig_loaded [where store = store and ld = ld and b = b and B = B, OF ok that])
  from part1 part2 show ?thesis
    by blast
qed

theorem callListeners_never_blocks_witness:
  "New ''filesystem'' cfgA facA = (Some mgrA, None)
   \<and> run (\<lambda>b. b) [Starting storeA, Subscribe 1, Subscribe 0, Subscribe 0, Receive 2]
         (boot mgrA) = Inr worldC
   \<and> listeners worldC = [0, 1, 2]
   \<and> canSend (chans worldC ! 0) \<and> \<not> canSend (chans worldC ! 1) \<and> canSend (chans worldC ! 2)
   \<and> (\<exists>w'. callListeners (Some [7]) worldC = Inr w'
          \<and> chans w' ! 0 = \<lparr>capacity = 1, queue = [Some [7]], closed = False, receivers = 0\<rparr>
          \<and> chans w' ! 1 = chans worldC ! 1
          \<and> chans w' ! 2 = \<lparr>capacity = 0, queue = [], closed = False, receivers = 0\<rparr>
          \<and> sent 0 (trace w') = [Some [7]]
          \<and> sent 1 (trace w') = []
          \<and> sent 2 (trace w') = [Some [7]])
   \<and> bucketClient worldC = Some 0
   \<and> storeA 0 (LoadPath (cfg worldC)) = GetReader [1, 255] None None
   \<and> Loader (cfg worldC) = Some loaderA
   \<and> loaderA [1, 255] = (Some [1, 255], None)
   \<and> (\<exists>w'. loadConfig (\<lambda>b. b) storeA worldC = Inr (None, w')
          \<and> chans w' ! 0
              = \<lparr>capacity = 1, queue = [Some [1, 255]], closed = False, receivers = 0\<rparr>
          \<and> chans w' ! 1 = chans worldC ! 1
          \<and> sent 0 (trace w') = [Some [1, 255]]
          \<and> sent 1 (trace w') = [])"
proof -
  have f: "listeners worldC = [0, 1, 2]"
    "chans worldC = [\<lparr>capacity = 1, queue = [], closed = False, receivers = 0\<rparr>,
                \<lparr>capacity = 0, queue = [], closed = False, receivers = 0\<rparr>,
                \<lparr>capacity = 0, queue = [], closed = False, receivers = 1\<rparr>]"
    "\<And>ch. sent ch (trace worldC) = []"
    "bucketClient worldC = Some 0" "LoadPath (cfg worldC) = ''cfg.yaml''"
    "Loader (cfg worldC) = Some loaderA"
    by (simp_all add: worldC_def boot_def mgrA_def cfgA_def)
  have g: "storeA 0 ''cfg.yaml'' = GetReader [1, 255] None None"
    "loaderA [1, 255] = (Some [1, 255], None)"
    by (simp_all add: storeA_def loaderA_def)
  have cs: "canSend (chans worldC ! 0)" "\<not> canSend (chans worldC ! 1)" "canSend (chans worldC ! 2)"
    by (simp_all add: f canSend_def)
  from callListeners_never_blocks [OF New_mgrA run_worldC, of "Some [7]" 0 storeA "[1, 255]" loaderA]
  have one: "\<exists>w'. callListeners (Some [7]) worldC = Inr w'
          \<and> chans w' ! 0 = \<lparr>capacity = 1, queue = [Some [7]], closed = False, receivers = 0\<rparr>
          \<and> chans w' ! 1 = chans worldC ! 1
          \<and> chans w' ! 2 = \<lparr>capacity = 0, queue = [], closed = False, receivers = 0\<rparr>
          \<and> sent 0 (trace w') = [Some [7]]
          \<and> sent 1 (trace w') = []
          \<and> sent 2 (trace w') = [Some [7]]"
    using cs by (auto simp: f deliver_def)
  from callListeners_never_blocks [OF New_mgrA run_worldC, of "Some [1, 255]" 0 storeA "[1, 255]" loaderA]
  have two: "\<exists>w'. loadConfig (\<lambda>b. b) storeA worldC = Inr (None, w')
          \<and> chans w' ! 0
              = \<lparr>capacity = 1, queue = [Some [1, 255]], closed = False, receivers = 0\<rparr>
          \<and> chans w' ! 1 = chans worldC ! 1
          \<and> sent 0 (trace w') = [Some [1, 255]]
          \<and> sent 1 (trace w') = []"
    using cs g by (auto simp: f deliver_def)
  show ?thesis
    using New_mgrA run_worldC one two cs f g by simp
qed

section \<open>Package runtimeconfig: stopping\<close>

lemma stopping_worldC: "stopping worldC = Inr (None, worldD)"
  by (simp add: worldD_def worldC_def boot_def stopping_def closechan_def)

lemma run_worldE:
  "run (\<lambda>b. b) [Reload storeA, Unsubscribe 0, Subscribe 4] worldD = Inr worldE"
  by (simp add: worldE_def worldD_def worldC_def boot_def mgrA_def cfgA_def storeA_def
      loaderA_def loadConfig_def loadConfigFromBucket_def callListeners_def
      setConfig_def configLoadSuccess_Set_def configHash_Reset_def configHash_Set_def
      Sprintf_x_example CloseListenerChannel_def CreateListenerChannel_def makechan_def)

text \<open>
  Claim C5. From every world a manager built by \<open>New\<close> can reach, \<open>stopping\<close> returns nil
  without a panic, closes each registered channel (each was open, with no close in the
  history) and empties the registry. After it every channel the manager ever created is
  closed and the history holds exactly one close for it. Whatever is done with the
  manager afterwards, those channels stay closed, closed once, and take no further
  value.
\<close>

theorem stopping_closes_all:
  assumes "New F c fac = (Some m, e)" and "run S acts (boot m) = Inr w"
  shows "\<exists>w'. stopping w = Inr (None, w')
     \<and> listeners w' = []
     \<and> trace w' = trace w @ map ChanClose (listeners w)
     \<and> distinct (listeners w)
     \<and> (\<forall>ch\<in>set (listeners w).
           ch < length (chans w) \<and> \<not> closed (chans w ! ch)
           \<and> count_list (trace w) (ChanClose ch) = 0)
     \<and> length (chans w') = length (chans w)
     \<and> (\<forall>ch<length (chans w').
           closed (chans w' ! ch) \<and> count_list (trace w') (ChanClose ch) = 1)
     \<and> (\<forall>later w''. run S later w' = Inr w'' \<longrightarrow>
           (\<forall>ch<length (chans w').
              closed (chans w'' ! ch)
              \<and> count_list (trace w'') (ChanClose ch) = 1
              \<and> sent ch (trace w'') = sent ch (trace w')
              \<and> ch \<notin> set (listeners w'')))"
proof -
  let ?w = "w\<lparr>listeners := [], chans := closeAll (listeners w) (chans w),
               trace := trace w @ map ChanClose (listeners w)\<rparr>"
  have ok: "registry_ok w"
    using assms by (rule run_New_ok)
  have stop: "stopping w = Inr (None, ?w)"
    using ok by (rule stopping_result)
  from stopping_ok [OF stop ok] have ok': "registry_ok ?w"
    by simp
  have before: "\<forall>ch\<in>set (listeners w).
           ch < length (chans w) \<and> \<not> closed (chans w ! ch)
           \<and> count_list (trace w) (ChanClose ch) = 0"
    and d: "distinct (listeners w)"
    using ok by (auto simp: registry_ok_def)
  have after: "\<forall>ch<length (chans ?w).
           closed (chans ?w ! ch) \<and> count_list (trace ?w) (ChanClose ch) = 1"
    using ok' by (auto simp: registry_ok_def)
  have later: "closed (chans w'' ! ch) \<and> count_list (trace w'') (ChanClose ch) = 1
       \<and> sent ch (trace w'') = sent ch (trace ?w) \<and> ch \<notin> set (listeners w'')"
    if r: "run S later ?w = Inr w''" and ch: "ch < length (chans ?w)" for later w'' ch
  proof -
    from run_ok [OF r ok'] have ok'': "registry_ok w''" and st: "closed_stay ?w w''"
      by simp_all
    from after ch have "closed (chans ?w ! ch)"
      by blast
    with st ch have c: "closed (chans w'' ! ch)" "sent ch (trace w'') = sent ch (trace ?w)"
      and len: "ch < length (chans w'')"
      by (auto simp: closed_stay_def)
    with ok'' show ?thesis
      by (auto simp: registry_ok_def)
  qed
  show ?thesis
    using stop before d after later by (intro exI [of _ ?w]) simp
qed

theorem stopping_closes_all_witness:
  "New ''filesystem'' cfgA facA = (Some mgrA, None)
   \<and> run (\<lambda>b. b) [Starting storeA, Subscribe 1, Subscribe 0, Subscribe 0, Receive 2]
         (boot mgrA) = Inr worldC
   \<and> listeners worldC = [0, 1, 2]
   \<and> stopping worldC = Inr (None, worldD)
   \<and> listeners worldD = []
   \<and> trace worldD = trace worldC @ [ChanClose 0, ChanClose 1, ChanClose 2]
   \<and> \<not> closed (chans worldC ! 1) \<and> count_list (trace worldC) (ChanClose 1) = 0
   \<and> closed (chans worldD ! 1) \<and> count_list (trace worldD) (ChanClose 1) = 1
   \<and> run (\<lambda>b. b) [Reload storeA, Unsubscribe 0, Subscribe 4] worldD = Inr worldE
   \<and> closed (chans worldE ! 0) \<and> closed (chans worldE ! 1) \<and> closed (chans worldE ! 2)
   \<and> count_list (trace worldE) (ChanClose 0) = 1
   \<and> sent 0 (trace worldE) = sent 0 (trace worldD)
   \<and> listeners worldE = [3]"
proof -
  have f: "listeners worldC = [0, 1, 2]" "listeners worldD = []" "listeners worldE = [3]"
    "trace worldD = trace worldC @ [ChanClose 0, ChanClose 1, ChanClose 2]"
    by (simp_all add: worldE_def worldD_def worldC_def boot_def)
  from stopping_closes_all [OF New_mgrA run_worldC]
  obtain w' where stop: "stopping worldC = Inr (None, w')"
    and before: "\<forall>ch\<in>set (listeners worldC).
           ch < length (chans worldC) \<and> \<not> closed (chans worldC ! ch)
           \<and> count_list (trace worldC) (ChanClose ch) = 0"
    and after: "\<forall>ch<length (chans w').
           closed (chans w' ! ch) \<and> count_list (trace w') (ChanClose ch) = 1"
    and later: "\<forall>later w''. run (\<lambda>b. b) later w' = Inr w'' \<longrightarrow>
           (\<forall>ch<length (chans w').
              closed (chans w'' ! ch)
              \<and> count_list (trace w'') (ChanClose ch) = 1
              \<and> sent ch (trace w'') = sent ch (trace w')
              \<and> ch \<notin> set (listeners w''))"
    by blast
  from stop stopping_worldC have w': "w' = worldD"
    by simp
  have len: "length (chans worldD) = 3"
    by (simp add: worldD_def)
  from later run_worldE have E: "\<And>ch. ch < 3 \<Longrightarrow> closed (chans worldE ! ch)
              \<and> count_list (trace worldE) (ChanClose ch) = 1
              \<and> sent ch (trace worldE) = sent ch (trace worldD)"
    unfolding w' len by blast
  from before [rule_format, of 1]
  have b1: "\<not> closed (chans worldC ! 1)" "count_list (trace worldC) (ChanClose 1) = 0"
    by (simp_all add: f)
  from after [rule_format, of 1]
  have a1: "closed (chans worldD ! 1)" "count_list (trace worldD) (ChanClose 1) = 1"
    unfolding w' len by simp_all
  from E [of 0] E [of 1] E [of 2]
  have "closed (chans worldE ! 0)" "closed (chans worldE ! 1)" "closed (chans worldE ! 2)"
    "count_list (trace worldE) (ChanClose 0) = 1" "sent 0 (trace worldE) = sent 0 (trace worldD)"
    by simp_all
  then show ?thesis
    using New_mgrA run_worldC stopping_worldC run_worldE b1 a1 f by simp
qed

section \<open>Package runtimeconfig: the shape of a reload cycle and the configuration cell\<close>

lemma stored_append [simp]: "stored (xs @ ys) = stored xs @ stored ys"
  by (induction xs rule: stored.induct) auto

lemma stored_ChanSend [simp]: "stored (map (\<lambda>c. ChanSend c v) xs) = []"
  by (induction xs) auto

lemma stored_ChanClose [simp]: "stored (map ChanClose xs) = []"
  by (induction xs) auto

lemma selectnbsend_shape:
  "selectnbsend c v w = Inr (t, w') \<Longrightarrow>
   \<exists>chs cs. w' = w\<lparr>chans := chs, trace := trace w @ map (\<lambda>c. ChanSend c v) cs\<rparr>"
proof -
  assume a: "selectnbsend c v w = Inr (t, w')"
  show ?thesis
  proof (cases t)
    case True
    with a have "\<exists>chs. w' = w\<lparr>chans := chs, trace := trace w @ map (\<lambda>c. ChanSend c v) [c]\<rparr>"
      by (auto simp: selectnbsend_def split: if_splits)
    then show ?thesis by blast
  next
    case False
    with a have "w' = w\<lparr>chans := chans w, trace := trace w @ map (\<lambda>c. ChanSend c v) []\<rparr>"
      by (auto simp: selectnbsend_def split: if_splits)
    then show ?thesis by blast
  qed
qed

lemma callListeners_range_shape:
  "callListeners_range xs v w = Inr w' \<Longrightarrow>
   \<exists>chs cs. w' = w\<lparr>chans := chs, trace := trace w @ map (\<lambda>c. ChanSend c v) cs\<rparr>"
proof (induction xs arbitrary: w)
  case Nil
  then have "w' = w\<lparr>chans := chans w, trace := trace w @ map (\<lambda>c. ChanSend c v) []\<rparr>"
    by simp
  then show ?case by blast
next
  case (Cons c xs)
  from Cons.prems obtain t w1 where s: "selectnbsend c v w = Inr (t, w1)"
    and r: "callListeners_range xs v w1 = Inr w'"
    by (auto split: sum.splits)
  from selectnbsend_shape [OF s] obtain chs1 cs1
    where w1: "w1 = w\<lparr>chans := chs1, trace := trace w @ map (\<lambda>c. ChanSend c v) cs1\<rparr>"
    by blast
  from Cons.IH [OF r] obtain chs2 cs2
    where w': "w' = w1\<lparr>chans := chs2, trace := trace w1 @ map (\<lambda>c. ChanSend c v) cs2\<rparr>"
    by blast
  have "w' = w\<lparr>chans := chs2, trace := trace w @ map (\<lambda>c. ChanSend c v) (cs1 @ cs2)\<rparr>"
    unfolding w' w1 by simp
  then show ?case by blast
qed

lemma loadConfigFromBucket_shape:
  "loadConfigFromBucket store w = Inr (r, w1) \<Longrightarrow>
   w1 = w\<lparr>trace := trace w @ [BucketGet (LoadPath (cfg w))]\<rparr>"
  by (auto simp: loadConfigFromBucket_def Let_def split: option.splits get_result.splits)

lemma loadConfig_cases:
  assumes "loadConfig S store w = Inr (e, w')"
  obtains
    (failed) buf err w1 msg tr where
      "loadConfigFromBucket store w = Inr ((buf, err), w1)"
      "err \<noteq> None \<or> (\<exists>ld. Loader (cfg w) = Some ld \<and> snd (ld buf) \<noteq> None)"
      "e = Some msg"
      "w' = w\<lparr>configLoadSuccess := 0, trace := trace w @ tr @ [SuccessSet 0]\<rparr>"
      "tr = [BucketGet (LoadPath (cfg w))] \<or> tr = [BucketGet (LoadPath (cfg w)), LoaderCall buf]"
  | (loaded) buf w1 ld v chs cs where
      "loadConfigFromBucket store w = Inr ((buf, None), w1)"
      "Loader (cfg w) = Some ld" "ld buf = (v, None)"
      "e = None"
      "w' = w\<lparr>config := v, configLoadSuccess := 1,
              configHash := [Sprintf_x (S buf) \<mapsto> 1], chans := chs,
              trace := trace w
                @ [BucketGet (LoadPath (cfg w)), LoaderCall buf, SuccessSet 1, ConfigStore v]
                @ map (\<lambda>c. ChanSend c v) cs
                @ [HashReset, HashSet (Sprintf_x (S buf)) 1]\<rparr>"
proof -
  from assms obtain buf err w1 where fetch: "loadConfigFromBucket store w = Inr ((buf, err), w1)"
    by (auto simp: loadConfig_def split: sum.splits)
  note w1 = loadConfigFromBucket_shape [OF fetch]
  show ?thesis
  proof (cases err)
    case (Some x)
    with assms fetch have e: "e = Some (''read file'' @ '': '' @ x)"
      and "w' = configLoadSuccess_Set 0 w1"
      by (simp_all add: loadConfig_def Wrap_def)
    then have w': "w' = w\<lparr>configLoadSuccess := 0,
             trace := trace w @ [BucketGet (LoadPath (cfg w))] @ [SuccessSet 0]\<rparr>"
      by (simp add: w1 configLoadSuccess_Set_def)
    show ?thesis
    proof (rule failed)
      show "loadConfigFromBucket store w = Inr ((buf, err), w1)" by fact
      show "err \<noteq> None \<or> (\<exists>ld. Loader (cfg w) = Some ld \<and> snd (ld buf) \<noteq> None)"
        using Some by simp
      show "e = Some (''read file'' @ '': '' @ x)" by fact
      show "w' = w\<lparr>configLoadSuccess := 0,
             trace := trace w @ [BucketGet (LoadPath (cfg w))] @ [SuccessSet 0]\<rparr>" by fact
      show "[BucketGet (LoadPath (cfg w))] = [BucketGet (LoadPath (cfg w))]
          \<or> [BucketGet (LoadPath (cfg w))] = [BucketGet (LoadPath (cfg w)), LoaderCall buf]"
        by simp
    qed
  next
    case None
    with assms fetch obtain ld where ld1: "Loader (cfg w1) = Some ld"
      by (auto simp: loadConfig_def split: option.splits)
    then have ld: "Loader (cfg w) = Some ld"
      by (simp add: w1)
    let ?w2 = "w1\<lparr>trace := trace w1 @ [LoaderCall buf]\<rparr>"
    obtain v derr where res: "ld buf = (v, derr)"
      by (cases "ld buf")
    show ?thesis
    proof (cases derr)
      case (Some x)
      with assms fetch None ld1 res have e: "e = Some (''load file'' @ '': '' @ x)"
        and "w' = configLoadSuccess_Set 0 ?w2"
        by (simp_all add: loadConfig_def Wrap_def)
      then have w': "w' = w\<lparr>configLoadSuccess := 0,
               trace := trace w @ [BucketGet (LoadPath (cfg w)), LoaderCall buf] @ [SuccessSet 0]\<rparr>"
        by (simp add: w1 configLoadSuccess_Set_def)
      show ?thesis
      proof (rule failed)
        show "loadConfigFromBucket store w = Inr ((buf, err), w1)" by fact
        show "err \<noteq> None \<or> (\<exists>ld. Loader (cfg w) = Some ld \<and> snd (ld buf) \<noteq> None)"
          using ld res Some by auto
        show "e = Some (''load file'' @ '': '' @ x)" by fact
        show "w' = w\<lparr>configLoadSuccess := 0,
               trace := trace w @ [BucketGet (LoadPath (cfg w)), LoaderCall buf] @ [SuccessSet 0]\<rparr>"
          by fact
        show "[BucketGet (LoadPath (cfg w)), LoaderCall buf] = [BucketGet (LoadPath (cfg w))]
          \<or> [BucketGet (LoadPath (cfg w)), LoaderCall buf]
              = [BucketGet (LoadPath (cfg w)), LoaderCall buf]"
          by simp
      qed
    next
      case None': None
      let ?w3 = "setConfig v (configLoadSuccess_Set 1 ?w2)"
      from assms fetch None ld1 res None' obtain w4
        where cl: "callListeners v ?w3 = Inr w4"
          and w': "w' = configHash_Set (Sprintf_x (S buf)) 1 (configHash_Reset w4)"
          and e: "e = None"
        by (auto simp: loadConfig_def split: sum.splits)
      from cl obtain chs cs
        where w4: "w4 = ?w3\<lparr>chans := chs, trace := trace ?w3 @ map (\<lambda>c. ChanSend c v) cs\<rparr>"
        unfolding callListeners_def by (blast dest: callListeners_range_shape)
      have w'': "w' = w\<lparr>config := v, configLoadSuccess := 1,
              configHash := [Sprintf_x (S buf) \<mapsto> 1], chans := chs,
              trace := trace w
                @ [BucketGet (LoadPath (cfg w)), LoaderCall buf, SuccessSet 1, ConfigStore v]
                @ map (\<lambda>c. ChanSend c v) cs
                @ [HashReset, HashSet (Sprintf_x (S buf)) 1]\<rparr>"
        unfolding w' w4 w1
        by (simp add: configHash_Set_def configHash_Reset_def setConfig_def configLoadSuccess_Set_def)
      show ?thesis
      proof (rule loaded)
        show "loadConfigFromBucket store w = Inr ((buf, None), w1)"
          using fetch None by simp
        show "Loader (cfg w) = Some ld" by fact
        show "ld buf = (v, None)"
          using res None' by simp
        show "e = None" by fact
        show "w' = w\<lparr>config := v, configLoadSuccess := 1,
              configHash := [Sprintf_x (S buf) \<mapsto> 1], chans := chs,
              trace := trace w
                @ [BucketGet (LoadPath (cfg w)), LoaderCall buf, SuccessSet 1, ConfigStore v]
                @ map (\<lambda>c. ChanSend c v) cs
                @ [HashReset, HashSet (Sprintf_x (S buf)) 1]\<rparr>"
          by fact
      qed
    qed
  qed
qed

lemma lastStored_append:
  "stored tr' = [] \<Longrightarrow> lastStored (tr @ tr') = lastStored tr"
  by (simp add: lastStored_def)

lemma loadConfig_cell:
  assumes "loadConfig S store w = Inr (e, w')"
  shows "cfg w' = cfg w \<and> (cell_ok w \<longrightarrow> cell_ok w')"
  using assms
proof (cases rule: loadConfig_cases)
  case (failed buf err w1 msg tr)
  from failed(5) have "stored (tr @ [SuccessSet 0]) = []"
    by auto
  then show ?thesis
    unfolding failed(4) cell_ok_def by (simp add: lastStored_append)
next
  case (loaded buf w1 ld v chs cs)
  have "lastStored (trace w') = v"
    unfolding loaded(5) by (simp add: lastStored_def)
  then show ?thesis
    unfolding cell_ok_def by (simp add: loaded(5))
qed

lemma starting_cell:
  assumes "starting S store w = Inr (e, w')"
  shows "cfg w' = cfg w \<and> (cell_ok w \<longrightarrow> cell_ok w')"
proof (cases "LoadPath (cfg w) = []")
  case True
  with assms show ?thesis by (simp add: starting_def)
next
  case False
  with assms obtain b err where fac: "bucketClientFactory w = Some (b, err)"
    by (auto simp: starting_def split: option.splits)
  show ?thesis
  proof (cases err)
    case (Some x)
    with assms False fac show ?thesis
      by (auto simp: starting_def cell_ok_def)
  next
    case None
    with assms False fac obtain e2 where "loadConfig S store (w\<lparr>bucketClient := b\<rparr>) = Inr (e2, w')"
      by (auto simp: starting_def split: sum.splits)
    from loadConfig_cell [OF this] show ?thesis
      by (simp add: cell_ok_def)
  qed
qed

lemma step_cell:
  assumes "step S a w = Inr w'" and ok: "registry_ok w"
  shows "cfg w' = cfg w \<and> (cell_ok w \<longrightarrow> cell_ok w')"
proof (cases a)
  case (Starting store)
  with assms obtain e where "starting S store w = Inr (e, w')"
    by (auto split: sum.splits)
  then show ?thesis by (rule starting_cell)
next
  case (Reload store)
  with assms obtain e where "loadConfig S store w = Inr (e, w')"
    by (auto split: sum.splits)
  then show ?thesis by (rule loadConfig_cell)
next
  case (Subscribe n)
  with assms obtain ch where cr: "CreateListenerChannel n w = Inr (ch, w')"
    by (auto split: sum.splits)
  then have "0 \<le> n"
    by (cases "n < 0") (simp_all add: CreateListenerChannel_panic)
  from cr show ?thesis
    unfolding CreateListenerChannel_result [OF \<open>0 \<le> n\<close>] by (auto simp: cell_ok_def)
next
  case (Unsubscribe l)
  with assms have cl: "CloseListenerChannel l w = Inr w'"
    by simp
  show ?thesis
  proof (cases "l \<in> set (listeners w)")
    case True
    from cl show ?thesis
      unfolding CloseListenerChannel_registered [OF ok True]
      by (auto simp: cell_ok_def lastStored_append)
  next
    case False
    with cl show ?thesis
      by (simp add: CloseListenerChannel_remove1)
  qed
next
  case Stopping
  with assms obtain e where "stopping w = Inr (e, w')"
    by (auto split: sum.splits)
  then show ?thesis
    unfolding stopping_result [OF ok] by (auto simp: cell_ok_def lastStored_append)
next
  case (Receive c)
  with assms show ?thesis
    by (auto simp: chanrecv_def cell_ok_def)
next
  case (Abandon c)
  with assms show ?thesis
    by (auto simp: abandon_def cell_ok_def)
qed

lemma run_cell:
  "run S acts w = Inr w' \<Longrightarrow> registry_ok w \<Longrightarrow> cfg w' = cfg w \<and> (cell_ok w \<longrightarrow> cell_ok w')"
proof (induction acts arbitrary: w)
  case Nil
  then show ?case by simp
next
  case (Cons a acts)
  from Cons.prems obtain w1 where s: "step S a w = Inr w1" and r: "run S acts w1 = Inr w'"
    by (auto split: sum.splits)
  from step_ok [OF s Cons.prems(2)] have "registry_ok w1"
    by simp
  from Cons.IH [OF r this] step_cell [OF s Cons.prems(2)] show ?case
    by simp
qed

lemma run_New_cell:
  assumes "New F c fac = (Some m, e)" and "run S acts (boot m) = Inr w"
  shows "cell_ok w \<and> LoadPath (cfg w) \<noteq> []"
proof -
  from assms(1) have "cell_ok (boot m)" "LoadPath (cfg (boot m)) \<noteq> []"
    by (auto simp: New_def boot_def cell_ok_def lastStored_def Let_def split: if_splits)
  with run_cell [OF assms(2) New_boot_ok [OF assms(1)]] show ?thesis
    by simp
qed

section \<open>Package runtimeconfig: a reload cycle that fails\<close>

text \<open>
  Claim C2. In every world a manager built by \<open>New\<close> can reach, a reload cycle whose
  fetch returns an error (from \<open>Get\<close>, from reading or from \<open>Close\<close>) or whose loader
  returns an error makes \<open>loadConfig\<close> return an error; the success gauge is 0 after it;
  the configuration cell, the hash gauge, the listeners and every channel are as before,
  so \<open>GetConfig\<close> still returns the value of the last cycle that succeeded (nil when
  none did) and no channel took a value; and the loop, woken by that tick, goes on
  with the wake-ups that follow instead of returning.
\<close>

theorem loadConfig_failure_contained:
  assumes "New F c fac = (Some m, e0)" and "run S acts (boot m) = Inr w"
    and "loadConfigFromBucket store w = Inr ((buf, err), w1)"
    and "err \<noteq> None \<or> (\<exists>ld. Loader (cfg w) = Some ld \<and> snd (ld buf) \<noteq> None)"
  shows "\<exists>msg w'. loadConfig S store w = Inr (Some msg, w')
     \<and> w' = w\<lparr>configLoadSuccess := 0, trace := trace w'\<rparr>
     \<and> cfg w' = cfg w
     \<and> configLoadSuccess w' = 0
     \<and> GetConfig w' = GetConfig w
     \<and> GetConfig w' = lastStored (trace w)
     \<and> lastStored (trace w') = lastStored (trace w)
     \<and> configHash w' = configHash w
     \<and> listeners w' = listeners w
     \<and> chans w' = chans w
     \<and> (\<forall>ch. sent ch (trace w') = sent ch (trace w))
     \<and> (\<forall>rest. loop_for S (TickerC store # rest) w = loop_for S rest w')
     \<and> (0 < ReloadPeriod (cfg w) \<longrightarrow>
          (\<forall>rest. loop S (TickerC store # rest) w = loop S rest w'))"
proof -
  from run_New_cell [OF assms(1,2)] have cell: "config w = lastStored (trace w)"
    and path: "LoadPath (cfg w) \<noteq> []"
    by (simp_all add: cell_ok_def)
  from loadConfig_failed [OF assms(3,4), of S] obtain msg tr
    where lc: "loadConfig S store w =
           Inr (Some msg, w\<lparr>configLoadSuccess := 0, trace := trace w @ tr @ [SuccessSet 0]\<rparr>)"
      and tr: "set tr \<subseteq> {BucketGet (LoadPath (cfg w)), LoaderCall buf}"
    by blast
  let ?w = "w\<lparr>configLoadSuccess := 0, trace := trace w @ tr @ [SuccessSet 0]\<rparr>"
  from tr have quiet: "stored tr = []" "\<And>ch. sent ch tr = []"
    by (induction tr) auto
  have "lastStored (trace ?w) = lastStored (trace w)"
    using quiet by (simp add: lastStored_append)
  moreover have "\<forall>ch. sent ch (trace ?w) = sent ch (trace w)"
    using quiet by simp
  moreover have "\<forall>rest. loop_for S (TickerC store # rest) w = loop_for S rest ?w"
    by (simp add: lc)
  moreover have "0 < ReloadPeriod (cfg w) \<longrightarrow>
          (\<forall>rest. loop S (TickerC store # rest) w = loop S rest ?w)"
    using path by (simp add: loop_def lc)
  ultimately show ?thesis
    using lc cell by (intro exI [of _ msg] exI [of _ ?w]) (simp add: GetConfig_def)
qed

theorem loadConfig_failure_contained_witness:
  "New ''filesystem'' cfgA facA = (Some mgrA, None)
   \<and> run (\<lambda>b. b) [Starting storeA, Subscribe 1, Subscribe 0, Subscribe 0, Receive 2]
         (boot mgrA) = Inr worldC
   \<and> loadConfigFromBucket storeF worldC =
        Inr (([], Some ''open file: unreachable''),
             worldC\<lparr>trace := trace worldC @ [BucketGet ''cfg.yaml'']\<rparr>)
   \<and> (\<exists>msg w'. loadConfig (\<lambda>b. b) storeF worldC = Inr (Some msg, w')
          \<and> configLoadSuccess w' = 0
          \<and> GetConfig w' = Some [1, 255]
          \<and> configHash w' = configHash worldC
          \<and> chans w' = chans worldC
          \<and> sent 0 (trace w') = []
          \<and> loop (\<lambda>b. b) [TickerC storeF] worldC = Inr (None, w')
          \<and> loop (\<lambda>b. b) [TickerC storeF, CtxDone] worldC = Inr (Some None, w'))
   \<and> loadConfigFromBucket storeE worldC =
        Inr (([], None), worldC\<lparr>trace := trace worldC @ [BucketGet ''cfg.yaml'']\<rparr>)
   \<and> Loader (cfg worldC) = Some loaderA
   \<and> snd (loaderA []) = Some ''empty file''
   \<and> (\<exists>msg w'. loadConfig (\<lambda>b. b) storeE worldC = Inr (Some msg, w')
          \<and> configLoadSuccess w' = 0
          \<and> GetConfig w' = Some [1, 255]
          \<and> configHash w' = configHash worldC
          \<and> chans w' = chans worldC
          \<and> sent 0 (trace w') = []
          \<and> loop (\<lambda>b. b) [TickerC storeE, CtxDone] worldC = Inr (Some None, w'))"
proof -
  have f: "bucketClient worldC = Some 0" "LoadPath (cfg worldC) = ''cfg.yaml''"
    "Loader (cfg worldC) = Some loaderA" "ReloadPeriod (cfg worldC) = 10000000000"
    "GetConfig worldC = Some [1, 255]" "\<And>ch. sent ch (trace worldC) = []"
    by (simp_all add: worldC_def boot_def mgrA_def cfgA_def GetConfig_def)
  have fetchF: "loadConfigFromBucket storeF worldC =
        Inr (([], Some ''open file: unreachable''),
             worldC\<lparr>trace := trace worldC @ [BucketGet ''cfg.yaml'']\<rparr>)"
    by (simp add: loadConfigFromBucket_def f storeF_def Wrap_def)
  have fetchE: "loadConfigFromBucket storeE worldC =
        Inr (([], None), worldC\<lparr>trace := trace worldC @ [BucketGet ''cfg.yaml'']\<rparr>)"
    by (simp add: loadConfigFromBucket_def f storeE_def)
  have ld: "snd (loaderA []) = Some ''empty file''"
    by (simp add: loaderA_def)
  have badF: "Some ''open file: unreachable'' \<noteq> None
      \<or> (\<exists>ld. Loader (cfg worldC) = Some ld \<and> snd (ld []) \<noteq> None)"
    by simp
  have badE: "(None :: error) \<noteq> None
      \<or> (\<exists>ld. Loader (cfg worldC) = Some ld \<and> snd (ld []) \<noteq> None)"
    using f ld by simp
  have stop: "loop (\<lambda>b. b) [CtxDone] w' = Inr (Some None, w')"
    "loop (\<lambda>b. b) [] w' = Inr (None, w')"
    if "cfg w' = cfg worldC" for w' :: "byte list world"
    using that by (simp_all add: loop_def f)
  from loadConfig_failure_contained [OF New_mgrA run_worldC fetchF badF]
  obtain msg w' where r: "loadConfig (\<lambda>b. b) storeF worldC = Inr (Some msg, w')"
    "cfg w' = cfg worldC" "configLoadSuccess w' = 0" "GetConfig w' = GetConfig worldC"
    "configHash w' = configHash worldC" "chans w' = chans worldC"
    "\<forall>ch. sent ch (trace w') = sent ch (trace worldC)"
    "0 < ReloadPeriod (cfg worldC) \<longrightarrow>
       (\<forall>rest. loop (\<lambda>b. b) (TickerC storeF # rest) worldC = loop (\<lambda>b. b) rest w')"
    by blast
  from r(8) have "loop (\<lambda>b. b) [TickerC storeF] worldC = Inr (None, w')"
    "loop (\<lambda>b. b) [TickerC storeF, CtxDone] worldC = Inr (Some None, w')"
    by (simp_all add: f stop [OF r(2)])
  with r have one: "\<exists>msg w'. loadConfig (\<lambda>b. b) storeF worldC = Inr (Some msg, w')
          \<and> configLoadSuccess w' = 0
          \<and> GetConfig w' = Some [1, 255]
          \<and> configHash w' = configHash worldC
          \<and> chans w' = chans worldC
          \<and> sent 0 (trace w') = []
          \<and> loop (\<lambda>b. b) [TickerC storeF] worldC = Inr (None, w')
          \<and> loop (\<lambda>b. b) [TickerC storeF, CtxDone] worldC = Inr (Some None, w')"
    by (intro exI [of _ msg] exI [of _ w']) (simp add: f)
  from loadConfig_failure_contained [OF New_mgrA run_worldC fetchE badE]
  obtain msg2 w2 where q: "loadConfig (\<lambda>b. b) storeE worldC = Inr (Some msg2, w2)"
    "cfg w2 = cfg worldC" "configLoadSuccess w2 = 0" "GetConfig w2 = GetConfig worldC"
    "configHash w2 = configHash worldC" "chans w2 = chans worldC"
    "\<forall>ch. sent ch (trace w2) = sent ch (trace worldC)"
    "0 < ReloadPeriod (cfg worldC) \<longrightarrow>
       (\<forall>rest. loop (\<lambda>b. b) (TickerC storeE # rest) worldC = loop (\<lambda>b. b) rest w2)"
    by blast
  from q(8) have "loop (\<lambda>b. b) [TickerC storeE, CtxDone] worldC = Inr (Some None, w2)"
    by (simp add: f stop [OF q(2)])
  with q have two: "\<exists>msg w'. loadConfig (\<lambda>b. b) storeE worldC = Inr (Some msg, w')
          \<and> configLoadSuccess w' = 0
          \<and> GetConfig w' = Some [1, 255]
          \<and> configHash w' = configHash worldC
          \<and> chans w' = chans worldC
          \<and> sent 0 (trace w') = []
          \<and> loop (\<lambda>b. b) [TickerC storeE, CtxDone] worldC = Inr (Some None, w')"
    by (intro exI [of _ msg2] exI [of _ w2]) (simp add: f)
  show ?thesis
    using New_mgrA run_worldC fetchF fetchE ld one two f(3) by simp
qed

section \<open>Package runtimeconfig: a reload cycle that succeeds\<close>

lemma split_at_send:
  assumes "pre @ rest = ys @ ChanSend ch x # zs" and "\<forall>c y. ChanSend c y \<notin> set pre"
  shows "\<exists>us. ys = pre @ us \<and> rest = us @ ChanSend ch x # zs"
  using assms
proof (induction pre arbitrary: ys)
  case Nil
  then show ?case by simp
next
  case (Cons p ps)
  show ?case
  proof (cases ys)
    case Nil
    with Cons.prems show ?thesis by auto
  next
    case (Cons y ys')
    with Cons.prems have "ps @ rest = ys' @ ChanSend ch x # zs" "\<forall>c y. ChanSend c y \<notin> set ps" "y = p"
      by auto
    with Cons.IH [of ys'] Cons show ?thesis by auto
  qed
qed

lemma sends_then_hash_split:
  assumes "map (\<lambda>c. ChanSend c v) cs @ [HashReset, HashSet l n] = us @ ChanSend ch x # zs"
  shows "x = v \<and> stored us = []"
proof -
  have "stored (map (\<lambda>c. ChanSend c v) cs @ [HashReset, HashSet l n]) = []"
    by simp
  with assms have "stored us = []"
    by (metis stored_append append_is_Nil_conv)
  moreover have "ChanSend ch x \<in> set (map (\<lambda>c. ChanSend c v) cs @ [HashReset, HashSet l n])"
    unfolding assms by simp
  then have "x = v"
    by auto
  ultimately show ?thesis by simp
qed

text \<open>
  Claim C3. In every world a manager built by \<open>New\<close> can reach, a reload cycle whose
  fetch and loader both succeed appends to the history, in this order: the fetch, the
  call of the loader, the success gauge set to 1, the store of the decoded value into
  the configuration cell, one send for each listener channel that could take the
  value (in the order of the registry), the reset of the hash gauge and the new hash
  label set to 1. So at every send of the cycle the value last stored in the cell is
  already the value sent, and after the cycle \<open>GetConfig\<close> returns it.
\<close>

theorem loadConfig_success_order:
  assumes "New F c fac = (Some m, e0)" and "run S acts (boot m) = Inr w"
    and "bucketClient w = Some b"
    and "store b (LoadPath (cfg w)) = GetReader B None None"
    and "Loader (cfg w) = Some ld" and "ld B = (v, None)"
  shows "\<exists>w'. loadConfig S store w = Inr (None, w')
     \<and> trace w' = trace w
         @ [BucketGet (LoadPath (cfg w)), LoaderCall B, SuccessSet 1, ConfigStore v]
         @ map (\<lambda>ch. ChanSend ch v) (filter (\<lambda>ch. canSend (chans w ! ch)) (listeners w))
         @ [HashReset, HashSet (Sprintf_x (S B)) 1]
     \<and> (\<forall>ys ch x zs. trace w' = trace w @ ys @ ChanSend ch x # zs \<longrightarrow>
           x = v \<and> lastStored (trace w @ ys) = v)
     \<and> configLoadSuccess w' = 1
     \<and> GetConfig w' = v
     \<and> chans w' = fanout v (listeners w) (chans w)
     \<and> configHash w' = [Sprintf_x (S B) \<mapsto> 1]
     \<and> w' = w\<lparr>config := v, configLoadSuccess := 1, configHash := configHash w',
               chans := chans w', trace := trace w'\<rparr>"
proof -
  let ?pre = "[BucketGet (LoadPath (cfg w)), LoaderCall B, SuccessSet 1, ConfigStore v]"
  let ?sends = "map (\<lambda>ch. ChanSend ch v) (filter (\<lambda>ch. canSend (chans w ! ch)) (listeners w))"
  let ?post = "[HashReset, HashSet (Sprintf_x (S B)) 1]"
  let ?w = "w\<lparr>config := v, configLoadSuccess := 1,
            configHash := [Sprintf_x (S B) \<mapsto> 1],
            chans := fanout v (listeners w) (chans w),
            trace := trace w @ ?pre @ ?sends @ ?post\<rparr>"
  have ok: "registry_ok w"
    using assms(1,2) by (rule run_New_ok)
  have lc: "loadConfig S store w = Inr (None, ?w)"
    using loadConfig_loaded [where store = store and ld = ld and b = b and B = B, OF ok assms(3-6)] .
  have before: "x = v \<and> lastStored (trace w @ ys) = v"
    if "trace ?w = trace w @ ys @ ChanSend ch x # zs" for ys ch x zs
  proof -
    from that have "?pre @ (?sends @ ?post) = ys @ ChanSend ch x # zs"
      by simp
    from split_at_send [OF this] obtain us
      where ys: "ys = ?pre @ us" and us: "?sends @ ?post = us @ ChanSend ch x # zs"
      by auto
    from sends_then_hash_split [OF us] have "x = v" "stored us = []"
      by simp_all
    then show ?thesis
      by (simp add: ys lastStored_def)
  qed
  show ?thesis
    using lc before by (intro exI [of _ ?w]) (simp add: GetConfig_def)
qed

theorem loadConfig_success_order_witness:
  "New ''filesystem'' cfgA facA = (Some mgrA, None)
   \<and> run (\<lambda>b. b) [Starting storeA, Subscribe 1, Subscribe 0, Subscribe 0, Receive 2]
         (boot mgrA) = Inr worldC
   \<and> bucketClient worldC = Some 0
   \<and> storeA 0 (LoadPath (cfg worldC)) = GetReader [1, 255] None None
   \<and> Loader (cfg worldC) = Some loaderA
   \<and> loaderA [1, 255] = (Some [1, 255], None)
   \<and> (\<exists>w'. loadConfig (\<lambda>b. b) storeA worldC = Inr (None, w')
          \<and> trace w' = trace worldC
              @ [BucketGet ''cfg.yaml'', LoaderCall [1, 255], SuccessSet 1,
                 ConfigStore (Some [1, 255]),
                 ChanSend 0 (Some [1, 255]), ChanSend 2 (Some [1, 255]),
                 HashReset, HashSet ''01ff'' 1]
          \<and> lastStored (trace worldC
                @ [BucketGet ''cfg.yaml'', LoaderCall [1, 255], SuccessSet 1,
                   ConfigStore (Some [1, 255]), ChanSend 0 (Some [1, 255])])
              = Some [1, 255]
          \<and> configLoadSuccess w' = 1
          \<and> GetConfig w' = Some [1, 255]
          \<and> configHash w' = [''01ff'' \<mapsto> 1])"
proof -
  have f: "bucketClient worldC = Some 0" "LoadPath (cfg worldC) = ''cfg.yaml''"
    "Loader (cfg worldC) = Some loaderA" "listeners worldC = [0, 1, 2]"
    "chans worldC = [\<lparr>capacity = 1, queue = [], closed = False, receivers = 0\<rparr>,
                \<lparr>capacity = 0, queue = [], closed = False, receivers = 0\<rparr>,
                \<lparr>capacity = 0, queue = [], closed = False, receivers = 1\<rparr>]"
    by (simp_all add: worldC_def boot_def mgrA_def cfgA_def)
  have g: "storeA 0 (LoadPath (cfg worldC)) = GetReader [1, 255] None None"
    "loaderA [1, 255] = (Some [1, 255], None)"
    by (simp_all add: f storeA_def loaderA_def)
  from loadConfig_success_order [where store = storeA and ld = loaderA and b = 0 and B = "[1, 255]",
      OF New_mgrA run_worldC f(1) g(1) f(3) g(2)]
  obtain w' where r: "loadConfig (\<lambda>b. b) storeA worldC = Inr (None, w')"
    "trace w' = trace worldC
         @ [BucketGet (LoadPath (cfg worldC)), LoaderCall [1, 255], SuccessSet 1,
            ConfigStore (Some [1, 255])]
         @ map (\<lambda>ch. ChanSend ch (Some [1, 255]))
             (filter (\<lambda>ch. canSend (chans worldC ! ch)) (listeners worldC))
         @ [HashReset, HashSet (Sprintf_x [1, 255]) 1]"
    "\<forall>ys ch x zs. trace w' = trace worldC @ ys @ ChanSend ch x # zs \<longrightarrow>
           x = Some [1, 255] \<and> lastStored (trace worldC @ ys) = Some [1, 255]"
    "configLoadSuccess w' = 1" "GetConfig w' = Some [1, 255]"
    "configHash w' = [Sprintf_x [1, 255] \<mapsto> 1]"
    by blast
  from r(2) have tr: "trace w' = trace worldC
              @ [BucketGet ''cfg.yaml'', LoaderCall [1, 255], SuccessSet 1,
                 ConfigStore (Some [1, 255]),
                 ChanSend 0 (Some [1, 255]), ChanSend 2 (Some [1, 255]),
                 HashReset, HashSet ''01ff'' 1]"
    by (simp add: f canSend_def Sprintf_x_example)
  from r(3) [rule_format,
      of "[BucketGet ''cfg.yaml'', LoaderCall [1, 255], SuccessSet 1,
           ConfigStore (Some [1, 255]), ChanSend 0 (Some [1, 255])]"
         2 "Some [1, 255]" "[HashReset, HashSet ''01ff'' 1]"]
  have ls: "lastStored (trace worldC
                @ [BucketGet ''cfg.yaml'', LoaderCall [1, 255], SuccessSet 1,
                   ConfigStore (Some [1, 255]), ChanSend 0 (Some [1, 255])])
              = Some [1, 255]"
    by (simp add: tr)
  from r(1,4,5,6) tr ls
  have "\<exists>w'. loadConfig (\<lambda>b. b) storeA worldC = Inr (None, w')
          \<and> trace w' = trace worldC
              @ [BucketGet ''cfg.yaml'', LoaderCall [1, 255], SuccessSet 1,
                 ConfigStore (Some [1, 255]),
                 ChanSend 0 (Some [1, 255]), ChanSend 2 (Some [1, 255]),
                 HashReset, HashSet ''01ff'' 1]
          \<and> lastStored (trace worldC
                @ [BucketGet ''cfg.yaml'', LoaderCall [1, 255], SuccessSet 1,
                   ConfigStore (Some [1, 255]), ChanSend 0 (Some [1, 255])])
              = Some [1, 255]
          \<and> configLoadSuccess w' = 1
          \<and> GetConfig w' = Some [1, 255]
          \<and> configHash w' = [''01ff'' \<mapsto> 1]"
    by (intro exI [of _ w']) (simp add: Sprintf_x_example)
  then show ?thesis
    using New_mgrA run_worldC f(1,3) g by simp
qed

section \<open>Package runtimeconfig: two reload cycles on the same bytes\<close>

lemma run_worldG: "run (\<lambda>b. b) [Starting storeA, Subscribe 2] (boot mgrA) = Inr worldG"
  by (simp add: worldG_def boot_def mgrA_def cfgA_def facA_def storeA_def loaderA_def
      starting_def loadConfig_def loadConfigFromBucket_def callListeners_def
      setConfig_def configLoadSuccess_Set_def configHash_Reset_def configHash_Set_def
      Sprintf_x_example Wrap_def CreateListenerChannel_def makechan_def)

lemma loadConfig_worldG: "loadConfig (\<lambda>b. b) storeA worldG = Inr (None, worldH)"
  by (simp add: worldH_def worldG_def boot_def mgrA_def cfgA_def storeA_def loaderA_def
      loadConfig_def loadConfigFromBucket_def callListeners_def selectnbsend_def
      setConfig_def configLoadSuccess_Set_def configHash_Reset_def configHash_Set_def
      Sprintf_x_example)

text \<open>
  Claim C7. In every world a manager built by \<open>New\<close> can reach, when a reload cycle
  succeeded on bytes \<open>B\<close> and the next tick fetches the same bytes \<open>B\<close>, the next cycle
  does all of it again: it calls the loader on \<open>B\<close>, stores the decoded value into the
  configuration cell, sends it to every listener channel that can take a value at that
  moment, and resets and sets the hash gauge, which ends with the same single label.
  Nothing of the first cycle is compared with the second.
\<close>

theorem loadConfig_no_short_circuit:
  assumes "New F c fac = (Some m, e0)" and "run S acts (boot m) = Inr w"
    and "bucketClient w = Some b"
    and "store1 b (LoadPath (cfg w)) = GetReader B None None"
    and "store2 b (LoadPath (cfg w)) = GetReader B None None"
    and "Loader (cfg w) = Some ld" and "ld B = (v, None)"
  shows "\<exists>w1 w2. loadConfig S store1 w = Inr (None, w1)
     \<and> loadConfig S store2 w1 = Inr (None, w2)
     \<and> loop_for S [TickerC store1, TickerC store2] w = Inr (None, w2)
     \<and> listeners w1 = listeners w
     \<and> trace w2 = trace w1
         @ [BucketGet (LoadPath (cfg w)), LoaderCall B, SuccessSet 1, ConfigStore v]
         @ map (\<lambda>ch. ChanSend ch v) (filter (\<lambda>ch. canSend (chans w1 ! ch)) (listeners w1))
         @ [HashReset, HashSet (Sprintf_x (S B)) 1]
     \<and> (\<forall>ch\<in>set (listeners w1).
           canSend (chans w1 ! ch) \<longrightarrow>
             chans w2 ! ch = deliver v (chans w1 ! ch)
             \<and> sent ch (trace w2) = sent ch (trace w1) @ [v])
     \<and> GetConfig w1 = v \<and> GetConfig w2 = v
     \<and> configHash w1 = [Sprintf_x (S B) \<mapsto> 1]
     \<and> configHash w2 = configHash w1"
proof -
  let ?pre = "[BucketGet (LoadPath (cfg w)), LoaderCall B, SuccessSet 1, ConfigStore v]"
  let ?post = "[HashReset, HashSet (Sprintf_x (S B)) 1]"
  define w1 where "w1 = w\<lparr>config := v, configLoadSuccess := 1,
            configHash := [Sprintf_x (S B) \<mapsto> 1],
            chans := fanout v (listeners w) (chans w),
            trace := trace w @ ?pre
              @ map (\<lambda>ch. ChanSend ch v) (filter (\<lambda>ch. canSend (chans w ! ch)) (listeners w))
              @ ?post\<rparr>"
  let ?sends = "map (\<lambda>ch. ChanSend ch v) (filter (\<lambda>ch. canSend (chans w1 ! ch)) (listeners w1))"
  define w2 where "w2 = w1\<lparr>config := v, configLoadSuccess := 1,
            configHash := [Sprintf_x (S B) \<mapsto> 1],
            chans := fanout v (listeners w1) (chans w1),
            trace := trace w1 @ ?pre @ ?sends @ ?post\<rparr>"
  have ok: "registry_ok w"
    using assms(1,2) by (rule run_New_ok)
  have lc1: "loadConfig S store1 w = Inr (None, w1)"
    unfolding w1_def
    using loadConfig_loaded [where store = store1 and ld = ld and b = b and B = B,
        OF ok assms(3,4,6,7)] .
  from loadConfig_keeps [OF lc1] ok have ok1: "registry_ok w1"
    by (rule keeps_registry_ok)
  have same: "cfg w1 = cfg w" "listeners w1 = listeners w" "config w1 = v"
    "configHash w1 = [Sprintf_x (S B) \<mapsto> 1]"
    by (simp_all add: w1_def)
  have again: "bucketClient w1 = Some b"
    "store2 b (LoadPath (cfg w1)) = GetReader B None None"
    "Loader (cfg w1) = Some ld"
    using assms(3,5,6) by (simp_all add: w1_def)
  have lc2: "loadConfig S store2 w1 = Inr (None, w2)"
    unfolding w2_def
    using loadConfig_loaded [where store = store2 and ld = ld and b = b and B = B
        and w = w1 and S = S, OF ok1 again assms(7)]
    by (simp add: same)
  have lp: "loop_for S [TickerC store1, TickerC store2] w = Inr (None, w2)"
    by (simp add: lc1 lc2)
  have tr2: "trace w2 = trace w1 @ ?pre @ ?sends @ ?post"
    and ch2: "chans w2 = fanout v (listeners w1) (chans w1)"
    and rest2: "config w2 = v" "configHash w2 = [Sprintf_x (S B) \<mapsto> 1]"
    by (simp_all add: w2_def)
  from registry_ok_open [OF ok1]
  have d: "distinct (listeners w1)"
    and alloc: "\<forall>ch\<in>set (listeners w1). ch < length (chans w1)"
    by auto
  have each: "\<forall>ch\<in>set (listeners w1).
           canSend (chans w1 ! ch) \<longrightarrow>
             chans w2 ! ch = deliver v (chans w1 ! ch)
             \<and> sent ch (trace w2) = sent ch (trace w1) @ [v]"
  proof (intro ballI impI)
    fix ch
    assume ch: "ch \<in> set (listeners w1)" and can: "canSend (chans w1 ! ch)"
    from ch can d have "sent ch ?sends = [v]"
      by (intro sent_ChanSend_distinct) auto
    moreover from ch alloc have "ch < length (chans w1)"
      by blast
    then have "chans w2 ! ch = deliver v (chans w1 ! ch)"
      using ch can by (simp add: ch2 nth_fanout)
    ultimately show "chans w2 ! ch = deliver v (chans w1 ! ch)
             \<and> sent ch (trace w2) = sent ch (trace w1) @ [v]"
      by (simp add: tr2)
  qed
  from lc1 lc2 lp each tr2 same rest2 show ?thesis
    by (intro exI [of _ w1] exI [of _ w2]) (simp add: GetConfig_def)
qed

theorem loadConfig_no_short_circuit_witness:
  "New ''filesystem'' cfgA facA = (Some mgrA, None)
   \<and> run (\<lambda>b. b) [Starting storeA, Subscribe 2] (boot mgrA) = Inr worldG
   \<and> bucketClient worldG = Some 0
   \<and> storeA 0 (LoadPath (cfg worldG)) = GetReader [1, 255] None None
   \<and> Loader (cfg worldG) = Some loaderA
   \<and> loaderA [1, 255] = (Some [1, 255], None)
   \<and> loadConfig (\<lambda>b. b) storeA worldG = Inr (None, worldH)
   \<and> canSend (chans worldH ! 0)
   \<and> (\<exists>w2. loadConfig (\<lambda>b. b) storeA worldH = Inr (None, w2)
          \<and> loop_for (\<lambda>b. b) [TickerC storeA, TickerC storeA] worldG = Inr (None, w2)
          \<and> trace w2 = trace worldH
              @ [BucketGet ''cfg.yaml'', LoaderCall [1, 255], SuccessSet 1,
                 ConfigStore (Some [1, 255]), ChanSend 0 (Some [1, 255]),
                 HashReset, HashSet ''01ff'' 1]
          \<and> chans w2 ! 0
              = \<lparr>capacity = 2, queue = [Some [1, 255], Some [1, 255]], closed = False,
                 receivers = 0\<rparr>
          \<and> sent 0 (trace w2) = [Some [1, 255], Some [1, 255]]
          \<and> GetConfig w2 = Some [1, 255]
          \<and> configHash worldH = [''01ff'' \<mapsto> 1]
          \<and> configHash w2 = [''01ff'' \<mapsto> 1])"
proof -
  have f: "bucketClient worldG = Some 0" "LoadPath (cfg worldG) = ''cfg.yaml''"
    "Loader (cfg worldG) = Some loaderA"
    by (simp_all add: worldG_def boot_def mgrA_def cfgA_def)
  have g: "storeA 0 (LoadPath (cfg worldG)) = GetReader [1, 255] None None"
    "loaderA [1, 255] = (Some [1, 255], None)"
    by (simp_all add: f storeA_def loaderA_def)
  have h: "listeners worldH = [0]"
    "chans worldH = [\<lparr>capacity = 2, queue = [Some [1, 255]], closed = False, receivers = 0\<rparr>]"
    "sent 0 (trace worldH) = [Some [1, 255]]"
    "configHash worldH = [''01ff'' \<mapsto> 1]"
    by (simp_all add: worldH_def worldG_def boot_def)
  have can: "canSend (chans worldH ! 0)"
    by (simp add: h canSend_def)
  from loadConfig_no_short_circuit [where ?store1.0 = storeA and ?store2.0 = storeA
      and ld = loaderA and b = 0 and B = "[1, 255]",
      OF New_mgrA run_worldG f(1) g(1) g(1) f(3) g(2)]
  obtain w1 w2 where r: "loadConfig (\<lambda>b. b) storeA worldG = Inr (None, w1)"
    "loadConfig (\<lambda>b. b) storeA w1 = Inr (None, w2)"
    "loop_for (\<lambda>b. b) [TickerC storeA, TickerC storeA] worldG = Inr (None, w2)"
    "trace w2 = trace w1
         @ [BucketGet (LoadPath (cfg worldG)), LoaderCall [1, 255], SuccessSet 1,
            ConfigStore (Some [1, 255])]
         @ map (\<lambda>ch. ChanSend ch (Some [1, 255]))
             (filter (\<lambda>ch. canSend (chans w1 ! ch)) (listeners w1))
         @ [HashReset, HashSet (Sprintf_x [1, 255]) 1]"
    "\<forall>ch\<in>set (listeners w1).
           canSend (chans w1 ! ch) \<longrightarrow>
             chans w2 ! ch = deliver (Some [1, 255]) (chans w1 ! ch)
             \<and> sent ch (trace w2) = sent ch (trace w1) @ [Some [1, 255]]"
    "GetConfig w2 = Some [1, 255]"
    "configHash w2 = configHash w1"
    by blast
  from r(1) loadConfig_worldG have w1: "w1 = worldH"
    by simp
  from r(5) can have "chans w2 ! 0 = deliver (Some [1, 255]) (chans worldH ! 0)"
    "sent 0 (trace w2) = sent 0 (trace worldH) @ [Some [1, 255]]"
    unfolding w1 by (simp_all add: h(1))
  then have d: "chans w2 ! 0
              = \<lparr>capacity = 2, queue = [Some [1, 255], Some [1, 255]], closed = False,
                 receivers = 0\<rparr>"
    "sent 0 (trace w2) = [Some [1, 255], Some [1, 255]]"
    by (simp_all add: h deliver_def)
  from r(4) can have tr: "trace w2 = trace worldH
              @ [BucketGet ''cfg.yaml'', LoaderCall [1, 255], SuccessSet 1,
                 ConfigStore (Some [1, 255]), ChanSend 0 (Some [1, 255]),
                 HashReset, HashSet ''01ff'' 1]"
    unfolding w1 by (simp add: h(1) f Sprintf_x_example)
  from r(2,3,6,7) d tr h(4)
  have "\<exists>w2. loadConfig (\<lambda>b. b) storeA worldH = Inr (None, w2)
          \<and> loop_for (\<lambda>b. b) [TickerC storeA, TickerC storeA] worldG = Inr (None, w2)
          \<and> trace w2 = trace worldH
              @ [BucketGet ''cfg.yaml'', LoaderCall [1, 255], SuccessSet 1,
                 ConfigStore (Some [1, 255]), ChanSend 0 (Some [1, 255]),
                 HashReset, HashSet ''01ff'' 1]
          \<and> chans w2 ! 0
              = \<lparr>capacity = 2, queue = [Some [1, 255], Some [1, 255]], closed = False,
                 receivers = 0\<rparr>
          \<and> sent 0 (trace w2) = [Some [1, 255], Some [1, 255]]
          \<and> GetConfig w2 = Some [1, 255]
          \<and> configHash worldH = [''01ff'' \<mapsto> 1]
          \<and> configHash w2 = [''01ff'' \<mapsto> 1]"
    unfolding w1 by (intro exI [of _ w2]) simp
  then show ?thesis
    using New_mgrA run_worldG loadConfig_worldG f(1,3) g can by simp
qed

section \<open>Package runtimeconfig: the hash gauge and the empty load path\<close>

lemma hexdigit_lower: "n < 16 \<Longrightarrow> hexdigit n \<in> set ''0123456789abcdef''"
  unfolding hexdigit_def by (rule nth_mem) simp

lemma hexbyte_lower: "set (hexbyte b) \<subseteq> set ''0123456789abcdef''"
proof -
  have "unat b < 256"
    using unsigned_less [of b] by simp
  then have "unat b div 16 < 16" "unat b mod 16 < 16"
    by simp_all
  then show ?thesis
    using hexdigit_lower by (simp add: hexbyte_def)
qed

lemma Sprintf_x_lower: "set (Sprintf_x bs) \<subseteq> set ''0123456789abcdef''"
  unfolding Sprintf_x_def using hexbyte_lower by (induction bs) auto

lemma length_Sprintf_x: "length (Sprintf_x bs) = 2 * length bs"
  by (induction bs) (simp_all add: Sprintf_x_def hexbyte_def)

text \<open>
  Claim C8. After every reload cycle that succeeds (\<open>loadConfig\<close> returns nil) on
  fetched bytes \<open>B\<close>, the hash gauge vector holds exactly one label, the lowercase
  hexadecimal text (two digits for each byte) of the digest of \<open>B\<close>, with value 1,
  whatever labels it held before; after every cycle that fails it holds what it held
  before. The digest function is \<open>sha256.Sum256\<close> of the standard library, a parameter
  here.
\<close>

theorem configHash_single_label:
  assumes "loadConfig S store w = Inr (e, w')"
  shows "(e = None \<longrightarrow>
           (\<exists>B w1. loadConfigFromBucket store w = Inr ((B, None), w1)
              \<and> configHash w' = [Sprintf_x (S B) \<mapsto> 1]
              \<and> dom (configHash w') = {Sprintf_x (S B)}
              \<and> (\<forall>l. configHash w' l = (if l = Sprintf_x (S B) then Some 1 else None))
              \<and> set (Sprintf_x (S B)) \<subseteq> set ''0123456789abcdef''
              \<and> length (Sprintf_x (S B)) = 2 * length (S B)))
     \<and> (e \<noteq> None \<longrightarrow> configHash w' = configHash w)"
  using assms
proof (cases rule: loadConfig_cases)
  case (failed buf err w1 msg tr)
  then show ?thesis by simp
next
  case (loaded buf w1 ld v chs cs)
  have "configHash w' = [Sprintf_x (S buf) \<mapsto> 1]"
    by (simp add: loaded(5))
  with loaded(1,4) show ?thesis
    using Sprintf_x_lower [of "S buf"] length_Sprintf_x [of "S buf"]
    by (intro conjI impI exI [of _ buf] exI [of _ w1]) auto
qed

theorem configHash_single_label_witness:
  "configHash worldG = [''01ff'' \<mapsto> 1]
   \<and> (\<exists>w'. loadConfig (\<lambda>b. b) storeB worldG = Inr (None, w')
          \<and> configHash w' = [''ab'' \<mapsto> 1]
          \<and> dom (configHash w') = {''ab''}
          \<and> configHash w' ''01ff'' = None)
   \<and> (\<exists>msg w'. loadConfig (\<lambda>b. b) storeF worldG = Inr (Some msg, w')
          \<and> configHash w' = [''01ff'' \<mapsto> 1])"
proof -
  have f: "configHash worldG = [''01ff'' \<mapsto> 1]" "bucketClient worldG = Some 0"
    "LoadPath (cfg worldG) = ''cfg.yaml''" "Loader (cfg worldG) = Some loaderA"
    "listeners worldG = [0]"
    "chans worldG = [\<lparr>capacity = 2, queue = [], closed = False, receivers = 0\<rparr>]"
    by (simp_all add: worldG_def boot_def mgrA_def cfgA_def)
  have fetch: "loadConfigFromBucket storeB worldG =
      Inr (([171], None), worldG\<lparr>trace := trace worldG @ [BucketGet ''cfg.yaml'']\<rparr>)"
    by (simp add: loadConfigFromBucket_def f storeB_def)
  have hex: "Sprintf_x [171] = ''ab''"
    by (simp add: Sprintf_x_def hexbyte_def hexdigit_def)
  obtain w' where ok: "loadConfig (\<lambda>b. b) storeB worldG = Inr (None, w')"
    by (simp add: loadConfig_def fetch f loaderA_def callListeners_def selectnbsend_def
        setConfig_def configLoadSuccess_Set_def)
  obtain msg w'' where bad: "loadConfig (\<lambda>b. b) storeF worldG = Inr (Some msg, w'')"
    by (simp add: loadConfig_def loadConfigFromBucket_def f storeF_def Wrap_def)
  from configHash_single_label [OF ok] fetch
  have "configHash w' = [''ab'' \<mapsto> 1]" "dom (configHash w') = {''ab''}"
    "configHash w' ''01ff'' = None"
    by (simp_all add: hex)
  with ok have one: "\<exists>w'. loadConfig (\<lambda>b. b) storeB worldG = Inr (None, w')
          \<and> configHash w' = [''ab'' \<mapsto> 1]
          \<and> dom (configHash w') = {''ab''}
          \<and> configHash w' ''01ff'' = None"
    by blast
  from configHash_single_label [OF bad] have "configHash w'' = [''01ff'' \<mapsto> 1]"
    by (simp add: f)
  with bad have two: "\<exists>msg w'. loadConfig (\<lambda>b. b) storeF worldG = Inr (Some msg, w')
          \<and> configHash w' = [''01ff'' \<mapsto> 1]"
    by blast
  from f(1) one two show ?thesis
    by simp
qed

text \<open>
  Claim C1, as the code has it. \<open>New\<close> refuses a configuration whose load path is
  empty: it returns no manager and the error "LoadPath is empty". For a manager value
  that holds an empty load path all the same, \<open>starting\<close> returns nil and \<open>loop\<close>
  never loads: both leave the world as it is without asking the bucket client factory
  or the store, so \<open>GetConfig\<close> returns what it returned before (nil for a cell never
  written); \<open>loop\<close> waits while the context is not cancelled and returns nil once it is.
\<close>

theorem empty_LoadPath:
  "(LoadPath c = [] \<longrightarrow> New F c fac = (None, Some ''LoadPath is empty''))
   \<and> (LoadPath (cfg w) = [] \<longrightarrow>
         starting S store w = Inr (None, w)
         \<and> loop S wakeups w = Inr (awaitDone wakeups, w)
         \<and> (CtxDone \<notin> set wakeups \<longrightarrow> loop S wakeups w = Inr (None, w))
         \<and> (CtxDone \<in> set wakeups \<longrightarrow> loop S wakeups w = Inr (Some None, w))
         \<and> (config w = None \<longrightarrow> GetConfig w = None))"
proof -
  have "awaitDone ws = (if CtxDone \<in> set ws then Some None else None)" for ws
    by (induction ws rule: awaitDone.induct) auto
  then show ?thesis
    by (simp add: New_def errors_New_def starting_def loop_def GetConfig_def)
qed

theorem empty_LoadPath_witness:
  "LoadPath cfgE = []
   \<and> New ''filesystem'' cfgE facA = (None, Some ''LoadPath is empty'')
   \<and> LoadPath (cfg worldZ) = []
   \<and> starting (\<lambda>b. b) storeA worldZ = Inr (None, worldZ)
   \<and> CtxDone \<notin> set [TickerC storeA, TickerC storeF]
   \<and> loop (\<lambda>b. b) [TickerC storeA, TickerC storeF] worldZ = Inr (None, worldZ)
   \<and> CtxDone \<in> set [TickerC storeA, CtxDone, TickerC storeF]
   \<and> loop (\<lambda>b. b) [TickerC storeA, CtxDone, TickerC storeF] worldZ = Inr (Some None, worldZ)
   \<and> config worldZ = None
   \<and> GetConfig worldZ = None"
proof -
  have f: "LoadPath cfgE = []" "LoadPath (cfg worldZ) = []" "config worldZ = None"
    by (simp_all add: cfgE_def worldZ_def boot_def mgrA_def)
  from empty_LoadPath [of cfgE "''filesystem''" facA worldZ "\<lambda>b. b" storeA
      "[TickerC storeA, TickerC storeF]"]
    empty_LoadPath [of cfgE "''filesystem''" facA worldZ "\<lambda>b. b" storeA
      "[TickerC storeA, CtxDone, TickerC storeF]"]
  show ?thesis
    using f by simp
qed

text \<open>
  The claim as the specification states it fails already at the construction: for a
  configuration with an empty load path \<open>New\<close> returns no manager but an error.
\<close>

theorem New_rejects_empty_path_counterexample:
  "LoadPath cfgE = []
   \<and> fst (New ''filesystem'' cfgE facA) = None
   \<and> snd (New ''filesystem'' cfgE facA) = Some ''LoadPath is empty''"
  by (simp add: New_def errors_New_def cfgE_def)

end
